theory Spec2Isabelle
  imports Complex_Main "HOL-Library.Word" "HOL-Library.Log_Nat" "HOL-Library.Sublist"
begin

unbundle bit_operations_syntax

section \<open>Pixel2CPP: the format packers of \<open>src/lib/packers.js\<close>\<close>

text \<open>
  The packers are pure JavaScript functions over an array of pixel objects
  \<open>{r, g, b, a}\<close>. They are embedded as HOL functions over a list of pixel records.
  A channel is a JavaScript number holding an integer and is modelled as \<open>int\<close>; the
  data model's range 0..255 is a hypothesis wherever a statement needs it, never part
  of the type. Widths and heights are loop bounds counted up from 0 and are modelled
  as \<open>nat\<close>.

  The only way a packer can fail is the read \<open>pixels[I(x, y)]\<close> beyond the end of
  the array: it yields \<open>undefined\<close>, and the property access \<open>p.r\<close> that follows
  raises a TypeError. Every such read is a branch of the model.
\<close>

subsection \<open>Data model\<close>

text \<open>A JavaScript string is a sequence of UTF-16 code units.\<close>

type_synonym jsstring = "16 word list"

definition ascii :: "string \<Rightarrow> jsstring" where
  "ascii s = map of_char s"

record pixel =
  r :: int
  g :: int
  b :: int
  a :: int

datatype error = TypeError | ReferenceError

text \<open>The data model's invariant on a pixel: every channel is in 0..255.\<close>

definition wf_pixel :: "pixel \<Rightarrow> bool" where
  "wf_pixel p \<longleftrightarrow>
     0 \<le> r p \<and> r p \<le> 255 \<and> 0 \<le> g p \<and> g p \<le> 255 \<and>
     0 \<le> b p \<and> b p \<le> 255 \<and> 0 \<le> a p \<and> a p \<le> 255"

text \<open>\<open>pixels[i]\<close> followed by a property access: out of range raises.\<close>

definition pixel_at :: "pixel list \<Rightarrow> nat \<Rightarrow> error + pixel" where
  "pixel_at pixels i = (if i < length pixels then Inr (pixels ! i) else Inl TypeError)"

text \<open>\<open>const I = (x, y) => y * width + x\<close>, the row-major index.\<close>

definition I :: "nat \<Rightarrow> nat \<Rightarrow> nat \<Rightarrow> nat" where
  "I width x y = y * width + x"

text \<open>The colour helpers of \<open>src/lib/colors.js\<close> used by the built-in tests.\<close>

definition transparent :: pixel where
  "transparent = \<lparr>r = 0, g = 0, b = 0, a = 0\<rparr>"

definition black :: pixel where
  "black = \<lparr>r = 0, g = 0, b = 0, a = 255\<rparr>"

definition white :: pixel where
  "white = \<lparr>r = 255, g = 255, b = 255, a = 255\<rparr>"

subsection \<open>JavaScript's 32-bit integer operators\<close>

text \<open>
  The bitwise operators of JavaScript convert their operands with ToInt32 (the value
  modulo \<open>2^32\<close>, read as two's complement) and return a 32-bit signed result.
  \<open>>>\<close> is the arithmetic shift; a shift count is taken modulo 32.
\<close>

definition toInt32 :: "int \<Rightarrow> int" where
  "toInt32 x = signed_take_bit 31 x"

definition js_shr :: "int \<Rightarrow> int \<Rightarrow> int" where
  "js_shr x n = drop_bit (nat (n mod 32)) (toInt32 x)"

definition js_shl :: "int \<Rightarrow> int \<Rightarrow> int" where
  "js_shl x n = toInt32 (push_bit (nat (n mod 32)) (toInt32 x))"

definition js_and :: "int \<Rightarrow> int \<Rightarrow> int" where
  "js_and x y = toInt32 x AND toInt32 y"

definition js_or :: "int \<Rightarrow> int \<Rightarrow> int" where
  "js_or x y = toInt32 x OR toInt32 y"

subsection \<open>\<open>rgbTo565\<close> and \<open>packRGB565\<close>\<close>

definition rgbTo565 :: "int \<Rightarrow> int \<Rightarrow> int \<Rightarrow> int" where
  "rgbTo565 rv gv bv =
     (let R = js_and (js_shr rv 3) 0x1f;
          G = js_and (js_shr gv 2) 0x3f;
          B = js_and (js_shr bv 3) 0x1f
      in js_or (js_or (js_shl R 11) (js_shl G 5)) B)"

text \<open>The inner loop \<open>for (let x = 0; x < width; x++)\<close> of \<open>packRGB565\<close>.\<close>

function packRGB565_row ::
  "pixel list \<Rightarrow> nat \<Rightarrow> nat \<Rightarrow> nat \<Rightarrow> int list \<Rightarrow> error + int list" where
  "packRGB565_row pixels width y x out =
     (if x < width then
        (case pixel_at pixels (I width x y) of
           Inl e \<Rightarrow> Inl e
         | Inr p \<Rightarrow> packRGB565_row pixels width y (x + 1) (out @ [rgbTo565 (r p) (g p) (b p)]))
      else Inr out)"
  by pat_completeness auto
termination
  by (relation "measure (\<lambda>(pixels, width, y, x, out). width - x)") auto

text \<open>The outer loop \<open>for (let y = 0; y < height; y++)\<close>.\<close>

function packRGB565_rows ::
  "pixel list \<Rightarrow> nat \<Rightarrow> nat \<Rightarrow> nat \<Rightarrow> int list \<Rightarrow> error + int list" where
  "packRGB565_rows pixels width height y out =
     (if y < height then
        (case packRGB565_row pixels width y 0 out of
           Inl e \<Rightarrow> Inl e
         | Inr out' \<Rightarrow> packRGB565_rows pixels width height (y + 1) out')
      else Inr out)"
  by pat_completeness auto
termination
  by (relation "measure (\<lambda>(pixels, width, height, y, out). height - y)") auto

definition packRGB565 :: "pixel list \<Rightarrow> nat \<Rightarrow> nat \<Rightarrow> error + int list" where
  "packRGB565 pixels width height = packRGB565_rows pixels width height 0 []"

subsection \<open>Double-precision arithmetic\<close>

text \<open>
  A JavaScript number is an IEEE 754 binary64 value, and \<open>+\<close>, \<open>*\<close> and \<open>/\<close> are
  the operations of that format. Where the source computes with them (the channel sum of
  \<open>pack1bit\<close>, the luma of \<open>packGray4\<close>) they are modelled: a finite double is the
  rational number it denotes, and every operation returns the exact result rounded to the
  nearest double, ties to the even significand. \<open>fl\<close> is that rounding for the normal
  range (magnitudes from \<open>2^-1022\<close> up to \<open>2^1024\<close>), which the values computed from
  channels in 0..255 never leave: they are 0 or lie between 0.07 and 765.
\<close>

definition round_half_even :: "rat \<Rightarrow> int" where
  "round_half_even m =
     (let f = \<lfloor>m\<rfloor>; d = m - of_int f
      in if d < 1 / 2 then f else if d > 1 / 2 then f + 1 else if even f then f else f + 1)"

text \<open>The binary exponent \<open>\<lfloor>log\<^sub>2 x\<rfloor>\<close> of a positive rational.\<close>

definition ilog2 :: "rat \<Rightarrow> int" where
  "ilog2 x =
     (let (p, q) = quotient_of x;
          e0 = int (floorlog 2 (nat p)) - int (floorlog 2 (nat q))
      in if 2 powi e0 \<le> x then e0 else e0 - 1)"

definition fl :: "rat \<Rightarrow> rat" where
  "fl x =
     (if x = 0 then 0
      else let u = 2 powi (ilog2 \<bar>x\<bar> - 52) in of_int (round_half_even (x / u)) * u)"

definition fmul :: "rat \<Rightarrow> rat \<Rightarrow> rat" where
  "fmul x y = fl (x * y)"

definition fadd :: "rat \<Rightarrow> rat \<Rightarrow> rat" where
  "fadd x y = fl (x + y)"

definition fdiv :: "rat \<Rightarrow> rat \<Rightarrow> rat" where
  "fdiv x y = fl (x / y)"

text \<open>A decimal literal of the source denotes the double nearest to it.\<close>

definition lit :: "rat \<Rightarrow> rat" where
  "lit x = fl x"

subsection \<open>\<open>pack1bit\<close>\<close>

text \<open>
  \<open>const on = (p.r + p.g + p.b) > (255 * 3) / 2\<close>: two additions of doubles, from
  left to right, compared with the double \<open>(255 * 3) / 2\<close>. A channel is a double
  already, so the channels themselves are not rounded, only the sums. On channels in
  0..255 every operation is exact and the test is \<open>r + g + b > 382.5\<close>
  (\<open>on_rgb_iff\<close> below).
\<close>

definition on_rgb :: "pixel \<Rightarrow> bool" where
  "on_rgb p \<longleftrightarrow>
     fadd (fadd (of_int (r p)) (of_int (g p))) (of_int (b p)) > fdiv (fmul 255 3) 2"

text \<open>
  Horizontal orientation, the inner loop over \<open>x\<close>. The loop variables \<open>bit\<close>,
  \<open>cur\<close> and the array \<open>bytes\<close> are passed along and returned.
\<close>

function pack1bit_hrow ::
  "pixel list \<Rightarrow> nat \<Rightarrow> nat \<Rightarrow> nat \<Rightarrow> int \<Rightarrow> int \<Rightarrow> int list \<Rightarrow> error + (int \<times> int \<times> int list)" where
  "pack1bit_hrow pixels width y x bitv cur bytes =
     (if x < width then
        (case pixel_at pixels (I width x y) of
           Inl e \<Rightarrow> Inl e
         | Inr p \<Rightarrow>
            (let cur1 = (if on_rgb p then js_or cur (js_shl 1 bitv) else cur) in
             if bitv - 1 < 0 then pack1bit_hrow pixels width y (x + 1) 7 0 (bytes @ [cur1])
             else pack1bit_hrow pixels width y (x + 1) (bitv - 1) cur1 bytes))
      else Inr (bitv, cur, bytes))"
  by pat_completeness auto
termination
  by (relation "measure (\<lambda>(pixels, width, y, x, bitv, cur, bytes). width - x)") auto

text \<open>The outer loop over \<open>y\<close>, with the flush of a partial byte after each row.\<close>

function pack1bit_hrows ::
  "pixel list \<Rightarrow> nat \<Rightarrow> nat \<Rightarrow> nat \<Rightarrow> int list \<Rightarrow> error + int list" where
  "pack1bit_hrows pixels width height y bytes =
     (if y < height then
        (case pack1bit_hrow pixels width y 0 7 0 bytes of
           Inl e \<Rightarrow> Inl e
         | Inr (bitv, cur, bytes1) \<Rightarrow>
             pack1bit_hrows pixels width height (y + 1)
               (if bitv \<noteq> 7 then bytes1 @ [cur] else bytes1))
      else Inr bytes)"
  by pat_completeness auto
termination
  by (relation "measure (\<lambda>(pixels, width, height, y, bytes). height - y)") auto

text \<open>
  Vertical orientation, the innermost loop \<open>for (let bit = 7; bit >= 0; bit--)\<close>
  that builds the byte of one page.
\<close>

function pack1bit_vpage ::
  "pixel list \<Rightarrow> nat \<Rightarrow> nat \<Rightarrow> nat \<Rightarrow> nat \<Rightarrow> int \<Rightarrow> int \<Rightarrow> error + int" where
  "pack1bit_vpage pixels width height x yPage bitv cur =
     (if bitv \<ge> 0 then
        (if yPage * 8 + nat (7 - bitv) < height then
           (case pixel_at pixels (I width x (yPage * 8 + nat (7 - bitv))) of
              Inl e \<Rightarrow> Inl e
            | Inr p \<Rightarrow>
                pack1bit_vpage pixels width height x yPage (bitv - 1)
                  (if on_rgb p then js_or cur (js_shl 1 bitv) else cur))
         else pack1bit_vpage pixels width height x yPage (bitv - 1) cur)
      else Inr cur)"
  by pat_completeness auto
termination
  by (relation "measure (\<lambda>(pixels, width, height, x, yPage, bitv, cur). nat (bitv + 1))") auto

text \<open>\<open>Math.ceil(height / 8)\<close>, the number of pages of a column.\<close>

definition pages :: "nat \<Rightarrow> nat" where
  "pages height = nat \<lceil>rat_of_nat height / 8\<rceil>"

text \<open>The loop over \<open>yPage\<close>.\<close>

function pack1bit_vpages ::
  "pixel list \<Rightarrow> nat \<Rightarrow> nat \<Rightarrow> nat \<Rightarrow> nat \<Rightarrow> int list \<Rightarrow> error + int list" where
  "pack1bit_vpages pixels width height x yPage bytes =
     (if yPage < pages height then
        (case pack1bit_vpage pixels width height x yPage 7 0 of
           Inl e \<Rightarrow> Inl e
         | Inr cur \<Rightarrow> pack1bit_vpages pixels width height x (yPage + 1) (bytes @ [cur]))
      else Inr bytes)"
  by pat_completeness auto
termination
  by (relation "measure (\<lambda>(pixels, width, height, x, yPage, bytes). pages height - yPage)") auto

text \<open>The loop over the columns \<open>x\<close>.\<close>

function pack1bit_vcols ::
  "pixel list \<Rightarrow> nat \<Rightarrow> nat \<Rightarrow> nat \<Rightarrow> int list \<Rightarrow> error + int list" where
  "pack1bit_vcols pixels width height x bytes =
     (if x < width then
        (case pack1bit_vpages pixels width height x 0 bytes of
           Inl e \<Rightarrow> Inl e
         | Inr bytes1 \<Rightarrow> pack1bit_vcols pixels width height (x + 1) bytes1)
      else Inr bytes)"
  by pat_completeness auto
termination
  by (relation "measure (\<lambda>(pixels, width, height, x, bytes). width - x)") auto

text \<open>
  \<open>pack1bit\<close>: the orientation is compared with \<open>'horizontal'\<close>, then with
  \<open>'vertical'\<close>; there is no third branch, so any other string leaves \<open>bytes\<close>
  empty. (The parameter's default \<open>'horizontal'\<close> replaces a missing argument; every
  caller in the repository passes one.)
\<close>

definition pack1bit :: "pixel list \<Rightarrow> nat \<Rightarrow> nat \<Rightarrow> jsstring \<Rightarrow> error + int list" where
  "pack1bit pixels width height orientation =
     (if orientation = ascii ''horizontal'' then pack1bit_hrows pixels width height 0 []
      else if orientation = ascii ''vertical'' then pack1bit_vcols pixels width height 0 []
      else Inr [])"

subsection \<open>\<open>pack1bitAlpha\<close>\<close>

text \<open>\<open>const hasAlpha = p.a > 127\<close>.\<close>

definition hasAlpha :: "pixel \<Rightarrow> bool" where
  "hasAlpha p \<longleftrightarrow> a p > 127"

function pack1bitAlpha_hrow ::
  "pixel list \<Rightarrow> nat \<Rightarrow> nat \<Rightarrow> nat \<Rightarrow> int \<Rightarrow> int \<Rightarrow> int list \<Rightarrow> error + (int \<times> int \<times> int list)" where
  "pack1bitAlpha_hrow pixels width y x bitv cur bytes =
     (if x < width then
        (case pixel_at pixels (I width x y) of
           Inl e \<Rightarrow> Inl e
         | Inr p \<Rightarrow>
            (let cur1 = (if hasAlpha p then js_or cur (js_shl 1 bitv) else cur) in
             if bitv - 1 < 0 then pack1bitAlpha_hrow pixels width y (x + 1) 7 0 (bytes @ [cur1])
             else pack1bitAlpha_hrow pixels width y (x + 1) (bitv - 1) cur1 bytes))
      else Inr (bitv, cur, bytes))"
  by pat_completeness auto
termination
  by (relation "measure (\<lambda>(pixels, width, y, x, bitv, cur, bytes). width - x)") auto

function pack1bitAlpha_hrows ::
  "pixel list \<Rightarrow> nat \<Rightarrow> nat \<Rightarrow> nat \<Rightarrow> int list \<Rightarrow> error + int list" where
  "pack1bitAlpha_hrows pixels width height y bytes =
     (if y < height then
        (case pack1bitAlpha_hrow pixels width y 0 7 0 bytes of
           Inl e \<Rightarrow> Inl e
         | Inr (bitv, cur, bytes1) \<Rightarrow>
             pack1bitAlpha_hrows pixels width height (y + 1)
               (if bitv \<noteq> 7 then bytes1 @ [cur] else bytes1))
      else Inr bytes)"
  by pat_completeness auto
termination
  by (relation "measure (\<lambda>(pixels, width, height, y, bytes). height - y)") auto

function pack1bitAlpha_vpage ::
  "pixel list \<Rightarrow> nat \<Rightarrow> nat \<Rightarrow> nat \<Rightarrow> nat \<Rightarrow> int \<Rightarrow> int \<Rightarrow> error + int" where
  "pack1bitAlpha_vpage pixels width height x yPage bitv cur =
     (if bitv \<ge> 0 then
        (if yPage * 8 + nat (7 - bitv) < height then
           (case pixel_at pixels (I width x (yPage * 8 + nat (7 - bitv))) of
              Inl e \<Rightarrow> Inl e
            | Inr p \<Rightarrow>
                pack1bitAlpha_vpage pixels width height x yPage (bitv - 1)
                  (if hasAlpha p then js_or cur (js_shl 1 bitv) else cur))
         else pack1bitAlpha_vpage pixels width height x yPage (bitv - 1) cur)
      else Inr cur)"
  by pat_completeness auto
termination
  by (relation "measure (\<lambda>(pixels, width, height, x, yPage, bitv, cur). nat (bitv + 1))") auto

function pack1bitAlpha_vpages ::
  "pixel list \<Rightarrow> nat \<Rightarrow> nat \<Rightarrow> nat \<Rightarrow> nat \<Rightarrow> int list \<Rightarrow> error + int list" where
  "pack1bitAlpha_vpages pixels width height x yPage bytes =
     (if yPage < pages height then
        (case pack1bitAlpha_vpage pixels width height x yPage 7 0 of
           Inl e \<Rightarrow> Inl e
         | Inr cur \<Rightarrow> pack1bitAlpha_vpages pixels width height x (yPage + 1) (bytes @ [cur]))
      else Inr bytes)"
  by pat_completeness auto
termination
  by (relation "measure (\<lambda>(pixels, width, height, x, yPage, bytes). pages height - yPage)") auto

function pack1bitAlpha_vcols ::
  "pixel list \<Rightarrow> nat \<Rightarrow> nat \<Rightarrow> nat \<Rightarrow> int list \<Rightarrow> error + int list" where
  "pack1bitAlpha_vcols pixels width height x bytes =
     (if x < width then
        (case pack1bitAlpha_vpages pixels width height x 0 bytes of
           Inl e \<Rightarrow> Inl e
         | Inr bytes1 \<Rightarrow> pack1bitAlpha_vcols pixels width height (x + 1) bytes1)
      else Inr bytes)"
  by pat_completeness auto
termination
  by (relation "measure (\<lambda>(pixels, width, height, x, bytes). width - x)") auto

text \<open>
  \<open>pack1bitAlpha\<close>: the second branch is a plain \<open>else\<close>, taken by every
  orientation other than \<open>'horizontal'\<close>.
\<close>

definition pack1bitAlpha :: "pixel list \<Rightarrow> nat \<Rightarrow> nat \<Rightarrow> jsstring \<Rightarrow> error + int list" where
  "pack1bitAlpha pixels width height orientation =
     (if orientation = ascii ''horizontal'' then pack1bitAlpha_hrows pixels width height 0 []
      else pack1bitAlpha_vcols pixels width height 0 [])"

subsection \<open>\<open>packGray4\<close>\<close>

text \<open>
  \<open>const luma = Math.floor((0.2126 * p.r + 0.7152 * p.g + 0.0722 * p.b) / 16)\<close>,
  evaluated left to right in doubles.
\<close>

definition luma :: "pixel \<Rightarrow> int" where
  "luma p =
     \<lfloor>fdiv (fadd (fadd (fmul (lit (2126 / 10000)) (of_int (r p)))
                       (fmul (lit (7152 / 10000)) (of_int (g p))))
                 (fmul (lit (722 / 10000)) (of_int (b p))))
           16\<rfloor>"

text \<open>\<open>const gray4 = Math.min(15, Math.max(0, luma))\<close>.\<close>

definition gray4 :: "pixel \<Rightarrow> int" where
  "gray4 p = min 15 (max 0 (luma p))"

text \<open>
  The inner loop over \<open>x\<close>, with the loop variables \<open>nibble\<close>, \<open>cur\<close> and
  \<open>bytes\<close>.
\<close>

function packGray4_row ::
  "pixel list \<Rightarrow> nat \<Rightarrow> nat \<Rightarrow> nat \<Rightarrow> int \<Rightarrow> int \<Rightarrow> int list \<Rightarrow> error + (int \<times> int \<times> int list)" where
  "packGray4_row pixels width y x nibble cur bytes =
     (if x < width then
        (case pixel_at pixels (I width x y) of
           Inl e \<Rightarrow> Inl e
         | Inr p \<Rightarrow>
            (if nibble = 1 then
               packGray4_row pixels width y (x + 1) 0 (js_shl (gray4 p) 4) bytes
             else
               packGray4_row pixels width y (x + 1) 1 0 (bytes @ [js_or cur (gray4 p)])))
      else Inr (nibble, cur, bytes))"
  by pat_completeness auto
termination
  by (relation "measure (\<lambda>(pixels, width, y, x, nibble, cur, bytes). width - x)") auto

function packGray4_rows ::
  "pixel list \<Rightarrow> nat \<Rightarrow> nat \<Rightarrow> nat \<Rightarrow> int list \<Rightarrow> error + int list" where
  "packGray4_rows pixels width height y bytes =
     (if y < height then
        (case packGray4_row pixels width y 0 1 0 bytes of
           Inl e \<Rightarrow> Inl e
         | Inr (nibble, cur, bytes1) \<Rightarrow>
             packGray4_rows pixels width height (y + 1)
               (if nibble = 0 then bytes1 @ [cur] else bytes1))
      else Inr bytes)"
  by pat_completeness auto
termination
  by (relation "measure (\<lambda>(pixels, width, height, y, bytes). height - y)") auto

definition packGray4 :: "pixel list \<Rightarrow> nat \<Rightarrow> nat \<Rightarrow> error + int list" where
  "packGray4 pixels width height = packGray4_rows pixels width height 0 []"

declare packGray4_row.simps [simp del] packGray4_rows.simps [simp del]
subsection \<open>\<open>packRGB24\<close> and the inline RGBA loop of \<open>generateCppCode\<close>\<close>

function packRGB24_row ::
  "pixel list \<Rightarrow> nat \<Rightarrow> nat \<Rightarrow> nat \<Rightarrow> int list \<Rightarrow> error + int list" where
  "packRGB24_row pixels width y x out =
     (if x < width then
        (case pixel_at pixels (I width x y) of
           Inl e \<Rightarrow> Inl e
         | Inr p \<Rightarrow> packRGB24_row pixels width y (x + 1) (out @ [r p, g p, b p]))
      else Inr out)"
  by pat_completeness auto
termination
  by (relation "measure (\<lambda>(pixels, width, y, x, out). width - x)") auto

function packRGB24_rows ::
  "pixel list \<Rightarrow> nat \<Rightarrow> nat \<Rightarrow> nat \<Rightarrow> int list \<Rightarrow> error + int list" where
  "packRGB24_rows pixels width height y out =
     (if y < height then
        (case packRGB24_row pixels width y 0 out of
           Inl e \<Rightarrow> Inl e
         | Inr out' \<Rightarrow> packRGB24_rows pixels width height (y + 1) out')
      else Inr out)"
  by pat_completeness auto
termination
  by (relation "measure (\<lambda>(pixels, width, height, y, out). height - y)") auto

definition packRGB24 :: "pixel list \<Rightarrow> nat \<Rightarrow> nat \<Rightarrow> error + int list" where
  "packRGB24 pixels width height = packRGB24_rows pixels width height 0 []"

text \<open>
  The loop written out in \<open>generateCppCode\<close> for \<open>HORIZONTAL_RGB888_32\<close>:
  \<open>bytes.push(p.r, p.g, p.b, p.a)\<close> for \<open>p = data[y * w + x]\<close>.
\<close>

function rgba32_row ::
  "pixel list \<Rightarrow> nat \<Rightarrow> nat \<Rightarrow> nat \<Rightarrow> int list \<Rightarrow> error + int list" where
  "rgba32_row pixels width y x out =
     (if x < width then
        (case pixel_at pixels (y * width + x) of
           Inl e \<Rightarrow> Inl e
         | Inr p \<Rightarrow> rgba32_row pixels width y (x + 1) (out @ [r p, g p, b p, a p]))
      else Inr out)"
  by pat_completeness auto
termination
  by (relation "measure (\<lambda>(pixels, width, y, x, out). width - x)") auto

function rgba32_rows ::
  "pixel list \<Rightarrow> nat \<Rightarrow> nat \<Rightarrow> nat \<Rightarrow> int list \<Rightarrow> error + int list" where
  "rgba32_rows pixels width height y out =
     (if y < height then
        (case rgba32_row pixels width y 0 out of
           Inl e \<Rightarrow> Inl e
         | Inr out' \<Rightarrow> rgba32_rows pixels width height (y + 1) out')
      else Inr out)"
  by pat_completeness auto
termination
  by (relation "measure (\<lambda>(pixels, width, height, y, out). height - y)") auto

section \<open>The code emitters of \<open>src/Pixel2CPP.jsx\<close>\<close>

subsection \<open>String helpers\<close>

text \<open>
  Numbers are rendered by JavaScript's \<open>toString\<close>: in base 10 by a template literal
  (\<open>${w}\<close>), in base 16 by \<open>b.toString(16)\<close>, which writes a negative number as a
  minus sign and the magnitude. Template literals switch to exponent notation from
  \<open>10^21\<close> on, far beyond any canvas dimension or array length.
\<close>

definition digit_char :: "nat \<Rightarrow> char" where
  "digit_char d = ''0123456789abcdef'' ! d"

fun digits :: "nat \<Rightarrow> nat \<Rightarrow> string" where
  "digits base n =
     (if base < 2 \<or> n < base then [digit_char n]
      else digits base (n div base) @ [digit_char (n mod base)])"

definition num :: "nat \<Rightarrow> jsstring" where
  "num n = ascii (digits 10 n)"

definition toString16 :: "int \<Rightarrow> jsstring" where
  "toString16 v = (if v < 0 then ascii ''-'' @ ascii (digits 16 (nat (- v))) else ascii (digits 16 (nat v)))"

text \<open>\<open>toUpperCase\<close>, on the code units of the ASCII letters (the only ones it meets here).\<close>

definition toUpperCase :: "jsstring \<Rightarrow> jsstring" where
  "toUpperCase s =
     map (\<lambda>c. if of_char CHR ''a'' \<le> c \<and> c \<le> of_char CHR ''z'' then c - 32 else c) s"

text \<open>\<open>s.padStart(n, "0")\<close>.\<close>

definition padStart :: "nat \<Rightarrow> jsstring \<Rightarrow> jsstring" where
  "padStart n s = replicate (n - length s) (of_char CHR ''0'') @ s"

text \<open>\<open>Array.prototype.join\<close>.\<close>

fun join :: "jsstring \<Rightarrow> jsstring list \<Rightarrow> jsstring" where
  "join sep [] = []"
| "join sep [x] = x"
| "join sep (x # y # ys) = x @ sep @ join sep (y # ys)"

text \<open>The line break inside a template literal.\<close>

definition nl :: jsstring where
  "nl = [0x0A]"

text \<open>A variable that may still be \<open>undefined\<close>, interpolated into a template literal.\<close>

definition str :: "jsstring option \<Rightarrow> jsstring" where
  "str v = (case v of None \<Rightarrow> ascii ''undefined'' | Some s \<Rightarrow> s)"

text \<open>\<open>hex565\<close> of \<open>packers.js\<close>.\<close>

definition hex565 :: "int \<Rightarrow> jsstring" where
  "hex565 v = ascii ''0x'' @ padStart 4 (toUpperCase (toString16 v))"

text \<open>
  \<open>formatByte\<close>, the arrow function each emitter defines:
  \<open>dataType === "uint16_t" ? "0x" + b.toString(16).toUpperCase().padStart(4, "0")
  : "0x" + b.toString(16).toUpperCase().padStart(2, "0")\<close>.
\<close>

definition formatByte :: "jsstring option \<Rightarrow> int \<Rightarrow> jsstring" where
  "formatByte dataType v =
     (if dataType = Some (ascii ''uint16_t'')
      then ascii ''0x'' @ padStart 4 (toUpperCase (toString16 v))
      else ascii ''0x'' @ padStart 2 (toUpperCase (toString16 v)))"

text \<open>The arrow function of the emitters that always write two digits.\<close>

definition formatByte2 :: "int \<Rightarrow> jsstring" where
  "formatByte2 v = ascii ''0x'' @ padStart 2 (toUpperCase (toString16 v))"

subsection \<open>Identifier sanitization\<close>

text \<open>
  \<open>name.replace(/[^a-zA-Z0-9_]/g, "_")\<close>: the pattern has no \<open>u\<close> flag, so it is
  matched against each UTF-16 code unit.
\<close>

definition ident_unit :: "16 word \<Rightarrow> bool" where
  "ident_unit c \<longleftrightarrow>
     (of_char CHR ''a'' \<le> c \<and> c \<le> of_char CHR ''z'') \<or>
     (of_char CHR ''A'' \<le> c \<and> c \<le> of_char CHR ''Z'') \<or>
     (of_char CHR ''0'' \<le> c \<and> c \<le> of_char CHR ''9'') \<or>
     c = of_char CHR ''_''"

definition safeName_of :: "jsstring \<Rightarrow> jsstring" where
  "safeName_of name = map (\<lambda>c. if ident_unit c then c else of_char CHR ''_'') name"

subsection \<open>The output format generators\<close>

text \<open>
  Each emitter starts with \<open>bytes.map(...)\<close>, which raises a TypeError when
  \<open>bytes\<close> is \<open>undefined\<close> (\<open>None\<close>). The text of every template literal is
  transcribed line by line.
\<close>

definition generatePlainBytes ::
  "int list option \<Rightarrow> jsstring \<Rightarrow> nat \<Rightarrow> nat \<Rightarrow> jsstring option \<Rightarrow> error + jsstring" where
  "generatePlainBytes bytes safeName w h dataType =
     (case bytes of
        None \<Rightarrow> Inl TypeError
      | Some bs \<Rightarrow>
         (let byteStr = join (ascii '', '') (map (formatByte dataType) bs) in
          Inr (join nl
                 [ascii ''// Generated by Pixel2CPP - Plain bytes format'',
                  ascii ''// '' @ num w @ ascii ''x'' @ num h @ ascii '' pixels, '' @ num (length bs) @ ascii '' bytes total'',
                  ascii ''// Data type: '' @ str dataType,
                  [],
                  byteStr])))"

definition generateArduinoCode ::
  "int list option \<Rightarrow> jsstring \<Rightarrow> nat \<Rightarrow> nat \<Rightarrow> jsstring option \<Rightarrow> jsstring option \<Rightarrow> jsstring
     \<Rightarrow> error + jsstring" where
  "generateArduinoCode bytes safeName w h dataType dataFormat drawMode =
     (case bytes of
        None \<Rightarrow> Inl TypeError
      | Some bs \<Rightarrow>
         (let byteStr = join (ascii '', '') (map (formatByte dataType) bs) in
          if sublist (ascii ''1BIT'') drawMode then
            Inr (join nl
                   [ascii ''// Generated by Pixel2CPP ('' @ drawMode @ ascii '')'',
                    ascii ''#include <Adafruit_GFX.h>'',
                    ascii ''#include <Adafruit_SSD1306.h>'',
                    [],
                    ascii ''const uint16_t '' @ safeName @ ascii ''_w = '' @ num w @ ascii '';'',
                    ascii ''const uint16_t '' @ safeName @ ascii ''_h = '' @ num h @ ascii '';'',
                    ascii ''const '' @ str dataType @ ascii '' '' @ safeName @ ascii ''_'' @ str dataFormat @ ascii ''[] PROGMEM = {'',
                    ascii ''  '' @ byteStr,
                    ascii ''};'',
                    [],
                    ascii ''Adafruit_SSD1306 display(128, 64, &Wire, -1);'',
                    [],
                    ascii ''void setup() {'',
                    ascii ''  display.begin(SSD1306_SWITCHCAPVCC, 0x3C);'',
                    ascii ''  display.clearDisplay();'',
                    ascii ''  display.drawBitmap(0, 0, '' @ safeName @ ascii ''_'' @ str dataFormat @ ascii '', '' @ safeName @ ascii ''_w, '' @ safeName @ ascii ''_h, 1);'',
                    ascii ''  display.display();'',
                    ascii ''}'',
                    [],
                    ascii ''void loop() {}''])
          else if sublist (ascii ''RGB565'') drawMode then
            Inr (join nl
                   [ascii ''// Generated by Pixel2CPP (RGB565)'',
                    ascii ''#include <Adafruit_GFX.h>'',
                    ascii ''#include <Adafruit_ST7735.h>'',
                    [],
                    ascii ''const uint16_t '' @ safeName @ ascii ''_w = '' @ num w @ ascii '';'',
                    ascii ''const uint16_t '' @ safeName @ ascii ''_h = '' @ num h @ ascii '';'',
                    ascii ''const '' @ str dataType @ ascii '' '' @ safeName @ ascii ''_'' @ str dataFormat @ ascii ''[] PROGMEM = {'',
                    ascii ''  '' @ byteStr,
                    ascii ''};'',
                    [],
                    ascii ''#define TFT_CS   10'',
                    ascii ''#define TFT_RST  9'',
                    ascii ''#define TFT_DC   8'',
                    [],
                    ascii ''Adafruit_ST7735 tft = Adafruit_ST7735(TFT_CS, TFT_DC, TFT_RST);'',
                    [],
                    ascii ''void setup() {'',
                    ascii ''  tft.initR(INITR_BLACKTAB);'',
                    ascii ''  tft.fillScreen(ST77XX_BLACK);'',
                    ascii ''  drawImage(0, 0);'',
                    ascii ''}'',
                    [],
                    ascii ''void drawImage(int16_t x0, int16_t y0) {'',
                    ascii ''  tft.startWrite();'',
                    ascii ''  tft.setAddrWindow(x0, y0, '' @ safeName @ ascii ''_w, '' @ safeName @ ascii ''_h);'',
                    ascii ''  for (uint16_t i = 0; i < '' @ safeName @ ascii ''_w * '' @ safeName @ ascii ''_h; i++) {'',
                    ascii ''    uint16_t color = pgm_read_word(&'' @ safeName @ ascii ''_'' @ str dataFormat @ ascii ''[i]);'',
                    ascii ''    tft.writePixel(color);'',
                    ascii ''  }'',
                    ascii ''  tft.endWrite();'',
                    ascii ''}'',
                    [],
                    ascii ''void loop() {}''])
          else
            Inr (join nl
                   [ascii ''// Generated by Pixel2CPP ('' @ drawMode @ ascii '')'',
                    ascii ''#include <Adafruit_GFX.h>'',
                    [],
                    ascii ''const uint16_t '' @ safeName @ ascii ''_w = '' @ num w @ ascii '';'',
                    ascii ''const uint16_t '' @ safeName @ ascii ''_h = '' @ num h @ ascii '';'',
                    ascii ''const '' @ str dataType @ ascii '' '' @ safeName @ ascii ''_'' @ str dataFormat @ ascii ''[] PROGMEM = {'',
                    ascii ''  '' @ byteStr,
                    ascii ''};'',
                    [],
                    ascii ''// Add your display setup and drawing code here''])))"

definition generateArduinoSingleBitmap ::
  "int list option \<Rightarrow> jsstring \<Rightarrow> nat \<Rightarrow> nat \<Rightarrow> jsstring option \<Rightarrow> jsstring option
     \<Rightarrow> error + jsstring" where
  "generateArduinoSingleBitmap bytes safeName w h dataType dataFormat =
     (case bytes of
        None \<Rightarrow> Inl TypeError
      | Some bs \<Rightarrow>
         (let byteStr = join (ascii '', '') (map (formatByte dataType) bs) in
          Inr (join nl
                 [ascii ''// Single bitmap array - '' @ safeName,
                  ascii ''// '' @ num w @ ascii ''x'' @ num h @ ascii '' pixels, '' @ num (length bs) @ ascii '' bytes'',
                  ascii ''const '' @ str dataType @ ascii '' '' @ safeName @ ascii ''[] PROGMEM = { '' @ byteStr @ ascii '' };''])))"

definition generateGFXBitmapFont ::
  "int list option \<Rightarrow> jsstring \<Rightarrow> nat \<Rightarrow> nat \<Rightarrow> error + jsstring" where
  "generateGFXBitmapFont bytes safeName w h =
     (case bytes of
        None \<Rightarrow> Inl TypeError
      | Some bs \<Rightarrow>
         (let byteStr = join (ascii '', '') (map formatByte2 bs) in
          Inr (join nl
                 [ascii ''// GFX Bitmap Font format - '' @ safeName,
                  ascii ''#include <Adafruit_GFX.h>'',
                  [],
                  ascii ''const uint8_t '' @ safeName @ ascii ''Bitmaps[] PROGMEM = {'',
                  ascii ''  '' @ byteStr,
                  ascii ''};'',
                  [],
                  ascii ''const GFXglyph '' @ safeName @ ascii ''Glyphs[] PROGMEM = {'',
                  ascii ''  { 0, '' @ num w @ ascii '', '' @ num h @ ascii '', '' @ num w @ ascii '', 0, 0 } // Single glyph covering entire bitmap'',
                  ascii ''};'',
                  [],
                  ascii ''const GFXfont '' @ safeName @ ascii '' PROGMEM = {'',
                  ascii ''  (uint8_t *)'' @ safeName @ ascii ''Bitmaps,'',
                  ascii ''  (GFXglyph *)'' @ safeName @ ascii ''Glyphs,'',
                  ascii ''  0, 0, '' @ num h,
                  ascii ''};''])))"

subsection \<open>\<open>generateCppCode\<close> and \<open>exportCpp\<close>\<close>

text \<open>
  The component's state (\<open>name\<close>, \<open>drawMode\<close>, \<open>outputFormat\<close>, \<open>data\<close>, \<open>w\<close>,
  \<open>h\<close>), which \<open>generateCppCode\<close> reads from its closure, is passed as arguments.

  The first \<open>if\<close> chain assigns \<open>bytes\<close>, \<open>dataType\<close> and \<open>dataFormat\<close> by the
  draw mode; it has no final \<open>else\<close>, so an unknown draw mode leaves all three
  \<open>undefined\<close>.
\<close>

definition packed_by_drawMode ::
  "jsstring \<Rightarrow> pixel list \<Rightarrow> nat \<Rightarrow> nat
     \<Rightarrow> error + (int list option \<times> jsstring option \<times> jsstring option)" where
  "packed_by_drawMode drawMode data w h =
     (if drawMode = ascii ''HORIZONTAL_1BIT'' then
        (case pack1bit data w h (ascii ''horizontal'') of
           Inl e \<Rightarrow> Inl e
         | Inr bs \<Rightarrow> Inr (Some bs, Some (ascii ''uint8_t''), Some (ascii ''bits'')))
      else if drawMode = ascii ''VERTICAL_1BIT'' then
        (case pack1bit data w h (ascii ''vertical'') of
           Inl e \<Rightarrow> Inl e
         | Inr bs \<Rightarrow> Inr (Some bs, Some (ascii ''uint8_t''), Some (ascii ''bits'')))
      else if drawMode = ascii ''HORIZONTAL_ALPHA'' then
        (case pack1bitAlpha data w h (ascii ''horizontal'') of
           Inl e \<Rightarrow> Inl e
         | Inr bs \<Rightarrow> Inr (Some bs, Some (ascii ''uint8_t''), Some (ascii ''alpha'')))
      else if drawMode = ascii ''HORIZONTAL_RGB565'' then
        (case packRGB565 data w h of
           Inl e \<Rightarrow> Inl e
         | Inr bs \<Rightarrow> Inr (Some bs, Some (ascii ''uint16_t''), Some (ascii ''pixels'')))
      else if drawMode = ascii ''HORIZONTAL_RGB888_24'' then
        (case packRGB24 data w h of
           Inl e \<Rightarrow> Inl e
         | Inr bs \<Rightarrow> Inr (Some bs, Some (ascii ''uint8_t''), Some (ascii ''pixels'')))
      else if drawMode = ascii ''HORIZONTAL_RGB888_32'' then
        (case rgba32_rows data w h 0 [] of
           Inl e \<Rightarrow> Inl e
         | Inr bs \<Rightarrow> Inr (Some bs, Some (ascii ''uint8_t''), Some (ascii ''pixels'')))
      else Inr (None, None, None))"

text \<open>
  The second chain dispatches on the output format and returns the emitter's text.
  When no output format matches, control reaches the ``legacy fallback'': two tests of
  \<open>drawMode\<close>, then the test \<open>mode === "RGB24"\<close>. The identifier \<open>mode\<close> is declared
  nowhere: the module's imports and the component's state variables do not bind it, and
  the page defines no global of that name. Evaluating it raises a ReferenceError, so the
  branches after it and the end of the function body (the implicit \<open>return undefined\<close>)
  are never reached.
\<close>

definition generateCppCode ::
  "jsstring \<Rightarrow> jsstring \<Rightarrow> jsstring \<Rightarrow> pixel list \<Rightarrow> nat \<Rightarrow> nat \<Rightarrow> error + jsstring" where
  "generateCppCode name drawMode outputFormat data w h =
     (let safeName = safeName_of name in
      case packed_by_drawMode drawMode data w h of
        Inl e \<Rightarrow> Inl e
      | Inr (bytes, dataType, dataFormat) \<Rightarrow>
         if outputFormat = ascii ''PLAIN_BYTES'' then
           generatePlainBytes bytes safeName w h dataType
         else if outputFormat = ascii ''ARDUINO_CODE'' then
           generateArduinoCode bytes safeName w h dataType dataFormat drawMode
         else if outputFormat = ascii ''ARDUINO_SINGLE_BITMAP'' then
           generateArduinoSingleBitmap bytes safeName w h dataType dataFormat
         else if outputFormat = ascii ''GFX_BITMAP_FONT'' then
           generateGFXBitmapFont bytes safeName w h
         else if drawMode = ascii ''HORIZONTAL_1BIT'' then
           (case bytes of
              None \<Rightarrow> Inl TypeError
            | Some bs \<Rightarrow>
               (let byteStr = join (ascii '', '') (map formatByte2 bs) in
                Inr (join nl
                       [ascii ''// Generated by Pixel2CPP (1-bit)'',
                        ascii ''#include <Adafruit_GFX.h>'',
                        ascii ''#include <Adafruit_SSD1306.h>'',
                        [],
                        ascii ''const uint16_t '' @ safeName @ ascii ''_w = '' @ num w @ ascii '';'',
                        ascii ''const uint16_t '' @ safeName @ ascii ''_h = '' @ num h @ ascii '';'',
                        ascii ''const uint8_t '' @ safeName @ ascii ''_bits[] PROGMEM = {'',
                        ascii ''  '' @ byteStr,
                        ascii ''};'',
                        [],
                        ascii ''Adafruit_SSD1306 display(128, 64, &Wire, -1);'',
                        [],
                        ascii ''void setup(){'',
                        ascii ''  display.begin(SSD1306_SWITCHCAPVCC, 0x3C);'',
                        ascii ''  display.clearDisplay();'',
                        ascii ''  display.drawBitmap(0, 0, '' @ safeName @ ascii ''_bits, '' @ safeName @ ascii ''_w, '' @ safeName @ ascii ''_h, 1);'',
                        ascii ''  display.display();'',
                        ascii ''}'',
                        [],
                        ascii ''void loop(){}''])))
         else if drawMode = ascii ''HORIZONTAL_RGB565'' then
           (case packRGB565 data w h of
              Inl e \<Rightarrow> Inl e
            | Inr words \<Rightarrow>
               (let wordStr = join (ascii '', '') (map hex565 words) in
                Inr (join nl
                       [ascii ''// Generated by Pixel2CPP (RGB565 for TFT displays)'',
                        ascii ''#include <Adafruit_GFX.h>'',
                        ascii ''#include <Adafruit_ST7735.h>  // Use ST7789, ILI9341, etc. for your display'',
                        [],
                        ascii ''const uint16_t '' @ safeName @ ascii ''_w = '' @ num w @ ascii '';'',
                        ascii ''const uint16_t '' @ safeName @ ascii ''_h = '' @ num h @ ascii '';'',
                        ascii ''const uint16_t '' @ safeName @ ascii ''_pixels[] PROGMEM = {'',
                        ascii ''  '' @ wordStr,
                        ascii ''};'',
                        [],
                        ascii ''// Define pins for your display (adjust for your setup)'',
                        ascii ''#define TFT_CS   10'',
                        ascii ''#define TFT_RST  9'',
                        ascii ''#define TFT_DC   8'',
                        [],
                        ascii ''Adafruit_ST7735 tft = Adafruit_ST7735(TFT_CS, TFT_DC, TFT_RST);'',
                        [],
                        ascii ''void setup() {'',
                        ascii ''  Serial.begin(9600);'',
                        ascii ''  '',
                        ascii ''  // Initialize display'',
                        ascii ''  tft.initR(INITR_BLACKTAB);  // Use INITR_GREENTAB, INITR_REDTAB for other variants'',
                        ascii ''  tft.setRotation(0);         // Adjust rotation as needed (0-3)'',
                        ascii ''  tft.fillScreen(ST77XX_BLACK);'',
                        ascii ''  '',
                        ascii ''  // Display the image at position (0, 0)'',
                        ascii ''  drawImage(0, 0);'',
                        ascii ''}'',
                        [],
                        ascii ''void loop() {'',
                        ascii ''  // Your main code here'',
                        ascii ''}'',
                        [],
                        ascii ''void drawImage(int16_t x0, int16_t y0) {'',
                        ascii ''  // Fast method: set address window and write pixels directly'',
                        ascii ''  tft.startWrite();'',
                        ascii ''  tft.setAddrWindow(x0, y0, '' @ safeName @ ascii ''_w, '' @ safeName @ ascii ''_h);'',
                        ascii ''  '',
                        ascii ''  for (uint16_t i = 0; i < '' @ safeName @ ascii ''_w * '' @ safeName @ ascii ''_h; i++) {'',
                        ascii ''    uint16_t color = pgm_read_word(&'' @ safeName @ ascii ''_pixels[i]);'',
                        ascii ''    tft.writePixel(color);'',
                        ascii ''  }'',
                        ascii ''  '',
                        ascii ''  tft.endWrite();'',
                        ascii ''}'',
                        [],
                        ascii ''/* Alternative method (slower but more flexible):'',
                        ascii ''void drawImagePixelByPixel(int16_t x0, int16_t y0) {'',
                        ascii ''  for (uint16_t y = 0; y < '' @ safeName @ ascii ''_h; y++) {'',
                        ascii ''    for (uint16_t x = 0; x < '' @ safeName @ ascii ''_w; x++) {'',
                        ascii ''      uint16_t color = pgm_read_word(&'' @ safeName @ ascii ''_pixels[y * '' @ safeName @ ascii ''_w + x]);'',
                        ascii ''      tft.drawPixel(x0 + x, y0 + y, color);'',
                        ascii ''    }'',
                        ascii ''  }'',
                        ascii ''}'',
                        ascii ''*/''])))
         else Inl ReferenceError)"


declare packRGB24_row.simps [simp del] packRGB24_rows.simps [simp del]
declare rgba32_row.simps [simp del] rgba32_rows.simps [simp del]
declare digits.simps [simp del]
declare packRGB565_row.simps [simp del] packRGB565_rows.simps [simp del]
declare pack1bit_hrow.simps [simp del] pack1bit_hrows.simps [simp del]
declare pack1bit_vpage.simps [simp del] pack1bit_vpages.simps [simp del]
declare pack1bit_vcols.simps [simp del]
declare pack1bitAlpha_hrow.simps [simp del] pack1bitAlpha_hrows.simps [simp del]
declare pack1bitAlpha_vpage.simps [simp del] pack1bitAlpha_vpages.simps [simp del]
declare pack1bitAlpha_vcols.simps [simp del]

section \<open>Specification-side definitions\<close>

text \<open>
  The byte whose bit \<open>7 - k\<close> is \<open>f k\<close>, for \<open>k\<close> from 0 to 7: the first of eight
  pixels in the most significant bit. It states what the 1-bit packers are to produce and
  is not part of the program.
\<close>

definition byte_of_bits :: "(nat \<Rightarrow> bool) \<Rightarrow> int" where
  "byte_of_bits f = horner_sum of_bool 2 (map (\<lambda>n. f (7 - n)) [0..<8])"




text \<open>
  The gray value in exact arithmetic: the quotient \<open>(0.2126 r + 0.7152 g + 0.0722 b) / 16\<close>
  as a rational number, then clamped to 0..15 after the floor of the code, or after the
  rounding that the specification names (\<open>Math.round\<close> rounds a half upwards).
\<close>

definition luma_exact :: "pixel \<Rightarrow> rat" where
  "luma_exact p =
     (2126 / 10000 * rat_of_int (r p) + 7152 / 10000 * rat_of_int (g p)
        + 722 / 10000 * rat_of_int (b p)) / 16"

definition gray4_exact_floor :: "pixel \<Rightarrow> int" where
  "gray4_exact_floor p = min 15 (max 0 \<lfloor>luma_exact p\<rfloor>)"



section \<open>Verification\<close>

subsection \<open>Row-major loops and \<open>packRGB565\<close>\<close>

lemma upt_shift: "[n..<n + m] = map (\<lambda>i. n + i) [0..<m]"
  by (induction m) simp_all

lemma concat_rows_upt:
  "concat (map (\<lambda>y. map (\<lambda>x. F (y * w + x)) [0..<w]) [0..<h]) = map F [0..<h * w]"
proof (induction h)
  case 0
  show ?case by simp
next
  case (Suc h)
  have "[0..<Suc h * w] = [0..<h * w] @ [h * w..<h * w + w]"
    using upt_add_eq_append [of 0 "h * w" w] by (simp only: mult_Suc add.commute add_0)
  then have "map F [0..<Suc h * w] = map F [0..<h * w] @ map (\<lambda>x. F (h * w + x)) [0..<w]"
    by (simp only: map_append upt_shift [of "h * w" w] map_map o_def)
  moreover have "concat (map (\<lambda>y. map (\<lambda>x. F (y * w + x)) [0..<w]) [0..<Suc h])
      = concat (map (\<lambda>y. map (\<lambda>x. F (y * w + x)) [0..<w]) [0..<h]) @ map (\<lambda>x. F (h * w + x)) [0..<w]"
    by (simp only: upt_Suc_append [of 0 h] le0 map_append concat_append list.map concat.simps append_Nil2) 
  ultimately show ?case using Suc by (simp only:)
qed

lemma map_nth_take: "n \<le> length xs \<Longrightarrow> map (\<lambda>i. f (xs ! i)) [0..<n] = map f (take n xs)"
  by (rule nth_equalityI) simp_all

lemma mult_le_rows: "y < height \<Longrightarrow> height * width \<le> n \<Longrightarrow> y * width + width \<le> (n::nat)"
proof -
  assume "y < height" "height * width \<le> n"
  then have "Suc y * width \<le> height * width" by (intro mult_le_mono1) simp
  then show ?thesis using \<open>height * width \<le> n\<close> by simp
qed

lemma pixel_at_ok: "i < length pixels \<Longrightarrow> pixel_at pixels i = Inr (pixels ! i)"
  by (simp add: pixel_at_def)

lemma pixel_at_Inr: "pixel_at pixels i = Inr p \<Longrightarrow> i < length pixels \<and> p = pixels ! i"
  by (simp add: pixel_at_def split: if_splits)

lemma packRGB565_row_ok:
  "x \<le> width \<Longrightarrow> y * width + width \<le> length pixels \<Longrightarrow>
   packRGB565_row pixels width y x out =
     Inr (out @ map (\<lambda>x'. rgbTo565 (r (pixels ! (y * width + x'))) (g (pixels ! (y * width + x')))
                               (b (pixels ! (y * width + x')))) [x..<width])"
proof (induction pixels width y x out rule: packRGB565_row.induct)
  case (1 pixels width y x out)
  show ?case
  proof (cases "x < width")
    case True
    then have "I width x y < length pixels" using "1.prems" by (simp add: I_def)
    then have pa: "pixel_at pixels (I width x y) = Inr (pixels ! (y * width + x))"
      by (simp add: pixel_at_ok I_def)
    show ?thesis
      using True "1.IH" [OF True pa] "1.prems" pa
      by (subst packRGB565_row.simps) (simp add: upt_conv_Cons)
  next
    case False
    then show ?thesis using "1.prems" by (subst packRGB565_row.simps) simp
  qed
qed

lemma packRGB565_row_Inr:
  "packRGB565_row pixels width y x out = Inr res \<Longrightarrow> x < width \<Longrightarrow>
   y * width + width \<le> length pixels"
proof (induction pixels width y x out rule: packRGB565_row.induct)
  case (1 pixels width y x out)
  from "1.prems" obtain p where pa: "pixel_at pixels (I width x y) = Inr p"
    and rec: "packRGB565_row pixels width y (x + 1) (out @ [rgbTo565 (r p) (g p) (b p)]) = Inr res"
    by (subst (asm) packRGB565_row.simps) (auto split: sum.splits)
  show ?case
  proof (cases "x + 1 < width")
    case True
    then show ?thesis using "1.IH" [OF "1.prems"(2) pa rec] by simp
  next
    case False
    then have "x + 1 = width" using "1.prems"(2) by simp
    then show ?thesis using pixel_at_Inr [OF pa] by (auto simp: I_def)
  qed
qed

lemma packRGB565_rows_ok:
  "y \<le> height \<Longrightarrow> height * width \<le> length pixels \<Longrightarrow>
   packRGB565_rows pixels width height y out =
     Inr (out @ concat (map (\<lambda>y'. map (\<lambda>x'. rgbTo565 (r (pixels ! (y' * width + x')))
            (g (pixels ! (y' * width + x'))) (b (pixels ! (y' * width + x')))) [0..<width]) [y..<height]))"
proof (induction pixels width height y out rule: packRGB565_rows.induct)
  case (1 pixels width height y out)
  show ?case
  proof (cases "y < height")
    case True
    have le: "y * width + width \<le> length pixels"
      using True "1.prems"(2) by (rule mult_le_rows)
    note row = packRGB565_row_ok [of 0 width y pixels out, OF le0 le]
    show ?thesis
      using True "1.IH" [OF True row] "1.prems"
      by (subst packRGB565_rows.simps) (simp add: row upt_conv_Cons)
  next
    case False
    then show ?thesis using "1.prems" by (subst packRGB565_rows.simps) simp
  qed
qed

lemma packRGB565_rows_Inr:
  "packRGB565_rows pixels width height y out = Inr res \<Longrightarrow> y < height \<Longrightarrow> 0 < width \<Longrightarrow>
   height * width \<le> length pixels"
proof (induction pixels width height y out rule: packRGB565_rows.induct)
  case (1 pixels width height y out)
  from "1.prems" obtain out' where row: "packRGB565_row pixels width y 0 out = Inr out'"
    and rec: "packRGB565_rows pixels width height (y + 1) out' = Inr res"
    by (subst (asm) packRGB565_rows.simps) (auto split: sum.splits)
  show ?case
  proof (cases "y + 1 < height")
    case True
    then show ?thesis using "1.IH" [OF "1.prems"(2) row rec] "1.prems" by simp
  next
    case False
    then have "y + 1 = height" using "1.prems"(2) by simp
    then show ?thesis using packRGB565_row_Inr [OF row "1.prems"(3)] by auto
  qed
qed

lemma pixel_at_Inl: "pixel_at pixels i = Inl e \<Longrightarrow> e = TypeError"
  by (simp add: pixel_at_def split: if_splits)

lemma packRGB565_row_Inl: "packRGB565_row pixels width y x out = Inl e \<Longrightarrow> e = TypeError"
proof (induction pixels width y x out rule: packRGB565_row.induct)
  case (1 pixels width y x out)
  show ?case
  proof (cases "pixel_at pixels (I width x y)")
    case (Inl e')
    then show ?thesis using "1.prems" pixel_at_Inl [OF Inl]
      by (subst (asm) packRGB565_row.simps) (simp split: if_splits)
  next
    case (Inr p)
    then show ?thesis using "1.prems" "1.IH" [OF _ Inr]
      by (subst (asm) packRGB565_row.simps) (simp split: if_splits)
  qed
qed

lemma packRGB565_rows_Inl: "packRGB565_rows pixels width height y out = Inl e \<Longrightarrow> e = TypeError"
proof (induction pixels width height y out rule: packRGB565_rows.induct)
  case (1 pixels width height y out)
  show ?case
  proof (cases "packRGB565_row pixels width y 0 out")
    case (Inl e')
    then show ?thesis using "1.prems" packRGB565_row_Inl [OF Inl]
      by (subst (asm) packRGB565_rows.simps) (simp split: if_splits)
  next
    case (Inr out')
    then show ?thesis using "1.prems" "1.IH" [OF _ Inr]
      by (subst (asm) packRGB565_rows.simps) (simp split: if_splits)
  qed
qed

lemma packRGB565_ok:
  assumes "width * height \<le> length pixels"
  shows "packRGB565 pixels width height =
           Inr (map (\<lambda>p. rgbTo565 (r p) (g p) (b p)) (take (width * height) pixels))"
proof -
  have le: "height * width \<le> length pixels" using assms by (simp add: mult.commute)
  have "packRGB565 pixels width height =
     Inr (map (\<lambda>i. rgbTo565 (r (pixels ! i)) (g (pixels ! i)) (b (pixels ! i))) [0..<height * width])"
    unfolding packRGB565_def packRGB565_rows_ok [OF le0 le]
    by (simp only: append_Nil concat_rows_upt [of "\<lambda>i. rgbTo565 (r (pixels ! i)) (g (pixels ! i)) (b (pixels ! i))"])
  also have "map (\<lambda>i. rgbTo565 (r (pixels ! i)) (g (pixels ! i)) (b (pixels ! i))) [0..<height * width]
      = map (\<lambda>p. rgbTo565 (r p) (g p) (b p)) (take (height * width) pixels)"
    using le by (rule map_nth_take)
  finally show ?thesis by (simp only: mult.commute)
qed

lemma packRGB565_short:
  assumes "length pixels < width * height"
  shows "packRGB565 pixels width height = Inl TypeError"
proof (cases "packRGB565 pixels width height")
  case (Inl e)
  then show ?thesis using packRGB565_rows_Inl [of pixels width height 0 "[]" e]
    by (simp add: packRGB565_def)
next
  case (Inr res)
  have pos: "0 < height" "0 < width" using assms by (cases height; cases width; simp)+
  have "height * width \<le> length pixels"
    using Inr pos unfolding packRGB565_def by (rule packRGB565_rows_Inr)
  then show ?thesis using assms by (simp add: mult.commute)
qed

subsection \<open>The 32-bit operators on small non-negative numbers\<close>

lemma toInt32_small: "0 \<le> x \<Longrightarrow> x < 2147483648 \<Longrightarrow> toInt32 x = x"
  by (simp add: toInt32_def signed_take_bit_int_eq_self)

lemma js_shr_small: "0 \<le> x \<Longrightarrow> x < 2147483648 \<Longrightarrow> n < 32 \<Longrightarrow> js_shr x (int n) = x div 2 ^ n"
  by (simp add: js_shr_def toInt32_small drop_bit_eq_div)

lemma js_shl_small:
  assumes "0 \<le> x" "x * 2 ^ n < 2147483648" "n < 32"
  shows "js_shl x (int n) = x * 2 ^ n"
proof -
  have "x * 1 \<le> x * 2 ^ n" using assms(1) by (intro mult_left_mono) simp_all
  then have "x < 2147483648" using assms(2) by simp
  moreover have "0 \<le> x * 2 ^ n" using assms(1) by simp
  ultimately show ?thesis using assms
    by (simp add: js_shl_def toInt32_small push_bit_eq_mult)
qed

lemma js_or_small:
  assumes "0 \<le> x" "x < 2147483648" "0 \<le> y" "y < 2147483648"
  shows "js_or x y = x OR y"
  using assms by (simp add: js_or_def toInt32_small)

lemma and_mask_small:
  assumes "0 \<le> x" "x < 2 ^ n"
  shows "x AND (2 ^ n - 1) = (x::int)"
proof -
  have "x AND (2 ^ n - 1) = take_bit n x"
    by (simp add: take_bit_eq_mask mask_eq_exp_minus_1)
  then show ?thesis using assms by (simp add: take_bit_int_eq_self)
qed

lemma js_and_31: "0 \<le> x \<Longrightarrow> x < 32 \<Longrightarrow> js_and x 31 = x"
  using and_mask_small [of x 5] by (simp add: js_and_def toInt32_small)

lemma js_and_63: "0 \<le> x \<Longrightarrow> x < 64 \<Longrightarrow> js_and x 63 = x"
  using and_mask_small [of x 6] by (simp add: js_and_def toInt32_small)

lemma or_bound16:
  assumes "0 \<le> x" "x < 65536" "0 \<le> y" "y < 65536"
  shows "0 \<le> x OR y \<and> x OR y < (65536::int)"
  using OR_upper [of x 16 y] assms by simp

lemma rgbTo565_formula:
  assumes "0 \<le> rv" "rv \<le> 255" "0 \<le> gv" "gv \<le> 255" "0 \<le> bv" "bv \<le> 255"
  shows "rgbTo565 rv gv bv = push_bit 11 (drop_bit 3 rv) OR push_bit 5 (drop_bit 2 gv) OR drop_bit 3 bv"
    and "0 \<le> rgbTo565 rv gv bv" and "rgbTo565 rv gv bv < 65536"
proof -
  define R where "R = rv div 2 ^ 3"
  define G where "G = gv div 2 ^ 2"
  define B where "B = bv div 2 ^ 3"
  have R: "0 \<le> R" "R < 32" using assms by (simp_all add: R_def)
  have G: "0 \<le> G" "G < 64" using assms by (simp_all add: G_def)
  have B: "0 \<le> B" "B < 32" using assms by (simp_all add: B_def)
  have shr: "js_shr rv 3 = R" "js_shr gv 2 = G" "js_shr bv 3 = B"
    using js_shr_small [of rv 3] js_shr_small [of gv 2] js_shr_small [of bv 3] assms
    by (simp_all add: R_def G_def B_def)
  have shl: "js_shl R 11 = R * 2 ^ 11" "js_shl G 5 = G * 2 ^ 5"
    using js_shl_small [of R 11] js_shl_small [of G 5] R G by simp_all
  have pR: "0 \<le> R * 2 ^ 11" "R * 2 ^ 11 < 65536" using R by simp_all
  have pG: "0 \<le> G * 2 ^ 5" "G * 2 ^ 5 < 65536" using G by simp_all
  have o1: "0 \<le> R * 2 ^ 11 OR G * 2 ^ 5" "R * 2 ^ 11 OR G * 2 ^ 5 < 65536"
    using or_bound16 [OF pR pG] by simp_all
  have o2: "0 \<le> (R * 2 ^ 11 OR G * 2 ^ 5) OR B" "(R * 2 ^ 11 OR G * 2 ^ 5) OR B < 65536"
    using or_bound16 [OF o1, of B] B by simp_all
  have j1: "js_or (R * 2 ^ 11) (G * 2 ^ 5) = R * 2 ^ 11 OR G * 2 ^ 5"
    using pR pG by (intro js_or_small) simp_all
  have j2: "js_or (R * 2 ^ 11 OR G * 2 ^ 5) B = (R * 2 ^ 11 OR G * 2 ^ 5) OR B"
    using o1 B by (intro js_or_small) simp_all
  have eq: "rgbTo565 rv gv bv = (R * 2 ^ 11 OR G * 2 ^ 5) OR B"
    using R G B j1 j2 by (simp add: rgbTo565_def Let_def shr shl js_and_31 js_and_63)
  show "rgbTo565 rv gv bv = push_bit 11 (drop_bit 3 rv) OR push_bit 5 (drop_bit 2 gv) OR drop_bit 3 bv"
    unfolding eq by (simp add: R_def G_def B_def push_bit_eq_mult drop_bit_eq_div or.assoc)
  show "0 \<le> rgbTo565 rv gv bv" "rgbTo565 rv gv bv < 65536"
    unfolding eq using o2 by simp_all
qed

lemma bit_small_int: "0 \<le> (x::int) \<Longrightarrow> x < 2 ^ n \<Longrightarrow> n \<le> m \<Longrightarrow> \<not> bit x m"
proof -
  assume x: "0 \<le> x" "x < 2 ^ n" and nm: "n \<le> m"
  have "(2::int) ^ n \<le> 2 ^ m" using nm by (intro power_increasing) simp_all
  with x(2) have "x < 2 ^ m" by (rule less_le_trans)
  then have "x div 2 ^ m = 0" using x by (simp add: div_pos_pos_trivial)
  then show "\<not> bit x m" by (simp add: bit_iff_odd)
qed

lemma rgbTo565_bit15:
  assumes "0 \<le> rv" "rv \<le> 255" "0 \<le> gv" "gv \<le> 255" "0 \<le> bv" "bv \<le> 255"
  shows "bit (rgbTo565 rv gv bv) 15 \<longleftrightarrow> 128 \<le> rv"
proof -
  have g0: "\<not> bit gv 12" using bit_small_int [of gv 8 12] assms by simp
  have b0: "\<not> bit bv 18" using bit_small_int [of bv 8 18] assms by simp
  have r7: "bit rv 7 \<longleftrightarrow> 128 \<le> rv"
  proof
    assume "bit rv 7"
    then have "rv div 128 \<noteq> 0" by (auto simp: bit_iff_odd)
    then show "128 \<le> rv" using assms by (simp add: div_pos_pos_trivial) 
  next
    assume h: "128 \<le> rv"
    then have "rv div 128 = 1" using assms by simp
    then show "bit rv 7" by (simp add: bit_iff_odd)
  qed
  show ?thesis
    using g0 b0 r7
    by (simp add: rgbTo565_formula(1) [OF assms] bit_or_iff bit_push_bit_iff bit_drop_bit_eq)
qed

subsection \<open>Claims C7 and C3: \<open>packRGB565\<close>\<close>

lemma rgbTo565_map:
  assumes "list_all wf_pixel ps"
  shows "map (\<lambda>p. rgbTo565 (r p) (g p) (b p)) ps =
         map (\<lambda>p. push_bit 11 (drop_bit 3 (r p)) OR push_bit 5 (drop_bit 2 (g p)) OR drop_bit 3 (b p)) ps"
  using assms by (induction ps) (simp_all add: wf_pixel_def rgbTo565_formula(1))

text \<open>
  Claim C7. On a buffer of length \<open>w * h\<close> whose channels are in 0..255,
  \<open>packRGB565\<close> returns, pixel by pixel in the row-major order of the buffer (the word
  at index \<open>y * w + x\<close> comes from the pixel at column \<open>x\<close> of row \<open>y\<close>), the word
  \<open>((r >> 3) << 11) | ((g >> 2) << 5) | (b >> 3)\<close>.
\<close>

theorem packRGB565_words:
  assumes "length pixels = w * h" and "list_all wf_pixel pixels"
  shows "packRGB565 pixels w h =
           Inr (map (\<lambda>p. push_bit 11 (drop_bit 3 (r p)) OR push_bit 5 (drop_bit 2 (g p)) OR drop_bit 3 (b p))
                  pixels) \<and>
         (\<forall>y<h. \<forall>x<w. \<exists>ws. packRGB565 pixels w h = Inr ws \<and>
           ws ! (y * w + x) =
             (push_bit 11 (drop_bit 3 (r (pixels ! I w x y))) OR push_bit 5 (drop_bit 2 (g (pixels ! I w x y)))
                OR drop_bit 3 (b (pixels ! I w x y))))"
proof -
  have "packRGB565 pixels w h = Inr (map (\<lambda>p. rgbTo565 (r p) (g p) (b p)) (take (w * h) pixels))"
    using assms(1) by (intro packRGB565_ok) simp
  then have eq: "packRGB565 pixels w h =
           Inr (map (\<lambda>p. push_bit 11 (drop_bit 3 (r p)) OR push_bit 5 (drop_bit 2 (g p)) OR drop_bit 3 (b p))
                  pixels)"
    using assms by (simp add: rgbTo565_map)
  have "\<exists>ws. packRGB565 pixels w h = Inr ws \<and>
           ws ! (y * w + x) =
             (push_bit 11 (drop_bit 3 (r (pixels ! I w x y))) OR push_bit 5 (drop_bit 2 (g (pixels ! I w x y)))
                OR drop_bit 3 (b (pixels ! I w x y)))"
    if "y < h" "x < w" for y x
  proof -
    have "y * w + w \<le> h * w" using that mult_le_rows [of y h w "h * w"] by simp
    then have "y * w + x < length pixels" using \<open>x < w\<close> assms(1) by (simp add: mult.commute)
    then show ?thesis unfolding eq by (simp add: I_def)
  qed
  with eq show ?thesis by blast
qed

theorem packRGB565_words_witness:
  "packRGB565 [\<lparr>r = 255, g = 0, b = 0, a = 255\<rparr>, \<lparr>r = 0, g = 255, b = 0, a = 255\<rparr>,
               \<lparr>r = 0, g = 0, b = 255, a = 255\<rparr>] 3 1 = Inr [0xF800, 0x07E0, 0x001F]"
proof -
  have len: "length [\<lparr>r = 255, g = 0, b = 0, a = 255\<rparr>, \<lparr>r = 0, g = 255, b = 0, a = 255\<rparr>,
               \<lparr>r = 0, g = 0, b = 255, a = (255::int)\<rparr>] = 3 * 1"
    by simp
  have wf: "list_all wf_pixel [\<lparr>r = 255, g = 0, b = 0, a = 255\<rparr>, \<lparr>r = 0, g = 255, b = 0, a = 255\<rparr>,
               \<lparr>r = 0, g = 0, b = 255, a = 255\<rparr>]"
    by (simp add: wf_pixel_def)
  from packRGB565_words [OF len wf] show ?thesis
    by (simp add: push_bit_eq_mult drop_bit_eq_div)
qed

text \<open>
  Claim C3, as stated, fails: the word of a pure red pixel is \<open>0xF800\<close>, whose bit 15
  is set.
\<close>

theorem packRGB565_bit15_counterexample:
  "wf_pixel \<lparr>r = 255, g = 0, b = 0, a = 255\<rparr> \<and>
   length [\<lparr>r = 255, g = 0, b = 0, a = (255::int)\<rparr>] = 1 * 1 \<and>
   packRGB565 [\<lparr>r = 255, g = 0, b = 0, a = 255\<rparr>] 1 1 = Inr [0xF800] \<and>
   bit (0xF800 :: int) 15"
  by (simp add: wf_pixel_def packRGB565_def packRGB565_rows.simps packRGB565_row.simps
      pixel_at_def I_def rgbTo565_formula(1) push_bit_eq_mult drop_bit_eq_div bit_iff_odd)

text \<open>
  Claim C3, amended. On a buffer of length \<open>w * h\<close> whose channels are in 0..255,
  \<open>packRGB565\<close> returns exactly \<open>w * h\<close> words, each in the range 0..65535 (no bit
  above bit 15 is set); bit 15 of a word is the top bit of the pixel's red channel, set
  exactly when \<open>r \<ge> 128\<close>.
\<close>

theorem packRGB565_length_range:
  assumes "length pixels = w * h" and "list_all wf_pixel pixels"
  shows "\<exists>ws. packRGB565 pixels w h = Inr ws \<and> length ws = w * h \<and>
           (\<forall>i<w * h. 0 \<le> ws ! i \<and> ws ! i < 65536 \<and> (bit (ws ! i) 15 \<longleftrightarrow> 128 \<le> r (pixels ! i)))"
proof -
  have eq: "packRGB565 pixels w h = Inr (map (\<lambda>p. rgbTo565 (r p) (g p) (b p)) pixels)"
    using packRGB565_ok [of w h pixels] assms(1) by simp
  have "0 \<le> rgbTo565 (r (pixels ! i)) (g (pixels ! i)) (b (pixels ! i)) \<and>
        rgbTo565 (r (pixels ! i)) (g (pixels ! i)) (b (pixels ! i)) < 65536 \<and>
        (bit (rgbTo565 (r (pixels ! i)) (g (pixels ! i)) (b (pixels ! i))) 15 \<longleftrightarrow> 128 \<le> r (pixels ! i))"
    if "i < w * h" for i
  proof -
    have "wf_pixel (pixels ! i)" using that assms by (simp add: list_all_length)
    then show ?thesis
      by (simp add: wf_pixel_def rgbTo565_formula(2,3) rgbTo565_bit15)
  qed
  then show ?thesis unfolding eq using assms(1) by simp
qed

theorem packRGB565_length_range_witness:
  "\<exists>ws. packRGB565 [\<lparr>r = 255, g = 0, b = 0, a = 255\<rparr>, \<lparr>r = 0, g = 255, b = 0, a = 255\<rparr>,
                     \<lparr>r = 0, g = 0, b = 255, a = 255\<rparr>] 3 1 = Inr ws \<and> length ws = 3 \<and>
        bit (ws ! 0) 15 \<and> \<not> bit (ws ! 1) 15 \<and> ws ! 2 < 65536"
proof -
  have len: "length [\<lparr>r = 255, g = 0, b = 0, a = 255\<rparr>, \<lparr>r = 0, g = 255, b = 0, a = 255\<rparr>,
               \<lparr>r = 0, g = 0, b = 255, a = (255::int)\<rparr>] = 3 * 1"
    by simp
  have wf: "list_all wf_pixel [\<lparr>r = 255, g = 0, b = 0, a = 255\<rparr>, \<lparr>r = 0, g = 255, b = 0, a = 255\<rparr>,
               \<lparr>r = 0, g = 0, b = 255, a = 255\<rparr>]"
    by (simp add: wf_pixel_def)
  from packRGB565_length_range [OF len wf] obtain ws where
    ws: "packRGB565 [\<lparr>r = 255, g = 0, b = 0, a = 255\<rparr>, \<lparr>r = 0, g = 255, b = 0, a = 255\<rparr>,
                     \<lparr>r = 0, g = 0, b = 255, a = 255\<rparr>] 3 1 = Inr ws" "length ws = 3 * 1"
    and all: "\<forall>i<3 * 1. 0 \<le> ws ! i \<and> ws ! i < 65536 \<and>
       (bit (ws ! i) 15 \<longleftrightarrow> 128 \<le> r ([\<lparr>r = 255, g = 0, b = 0, a = 255\<rparr>, \<lparr>r = 0, g = 255, b = 0, a = 255\<rparr>,
                     \<lparr>r = 0, g = 0, b = 255, a = 255\<rparr>] ! i))"
    by blast
  from all have "bit (ws ! 0) 15" "\<not> bit (ws ! 1) 15" "ws ! 2 < 65536"
    by simp_all
  with ws show ?thesis by simp
qed

subsection \<open>Bytes from bits\<close>

lemma bit_byte_of_bits: "bit (byte_of_bits f) n \<longleftrightarrow> n < 8 \<and> f (7 - n)"
  by (auto simp add: byte_of_bits_def bit_horner_sum_bit_iff)

lemma byte_of_bits_cong: "(\<And>k. k < 8 \<Longrightarrow> f k = f' k) \<Longrightarrow> byte_of_bits f = byte_of_bits f'"
  by (rule bit_eqI) (auto simp add: bit_byte_of_bits)

lemma byte_of_bits_range: "0 \<le> byte_of_bits f \<and> byte_of_bits f < 256"
proof -
  have "byte_of_bits f = take_bit 8 (byte_of_bits f)"
    by (rule bit_eqI) (auto simp add: bit_byte_of_bits bit_take_bit_iff)
  moreover have "0 \<le> take_bit 8 (byte_of_bits f)" by simp
  moreover have "take_bit 8 (byte_of_bits f) < 2 ^ 8" by (rule take_bit_int_less_exp)
  ultimately show ?thesis by simp
qed

lemma byte_of_bits_False: "byte_of_bits (\<lambda>i. False) = 0"
  by (rule bit_eqI) (simp add: bit_byte_of_bits)

lemma byte_of_bits_set:
  assumes "k < 8"
  shows "js_or (byte_of_bits f) (js_shl 1 (7 - int k)) = byte_of_bits (\<lambda>i. f i \<or> i = k)"
proof -
  have le: "(2::int) ^ (7 - k) \<le> 2 ^ 7" by (intro power_increasing) simp_all
  then have "(1::int) * 2 ^ (7 - k) < 2147483648" by simp
  then have "js_shl 1 (int (7 - k)) = 1 * 2 ^ (7 - k)"
    by (intro js_shl_small) simp_all
  moreover have "int (7 - k) = 7 - int k" using assms by simp
  ultimately have shl: "js_shl 1 (7 - int k) = 2 ^ (7 - k)" by simp
  have "js_or (byte_of_bits f) (2 ^ (7 - k)) = byte_of_bits f OR 2 ^ (7 - k)"
    using byte_of_bits_range [of f] le by (intro js_or_small) simp_all
  also have "\<dots> = byte_of_bits (\<lambda>i. f i \<or> i = k)"
    using assms by (intro bit_eqI) (auto simp add: bit_byte_of_bits bit_or_iff bit_exp_iff)
  finally show ?thesis by (simp add: shl)
qed

lemma ceil8_cases: "(n + 7) div 8 = (if n mod 8 = 0 then n div 8 else Suc (n div (8::nat)))"
proof -
  define q m where "q = n div 8" and "m = n mod 8"
  have n: "n = 8 * q + m" and m: "m < 8" by (simp_all add: q_def m_def)
  have "(n + 7) div 8 = q + (m + 7) div 8" unfolding n by simp
  moreover have "(m + 7) div 8 = (if m = 0 then 0 else 1)"
  proof (cases "m = 0")
    case True then show ?thesis by simp
  next
    case False
    then have "8 * 1 \<le> m + 7" "m + 7 < 8 * Suc 1" using m by simp_all
    then have "(m + 7) div 8 = 1" by (rule div_nat_eqI)
    then show ?thesis using False by simp
  qed
  ultimately show ?thesis by (simp add: q_def m_def)
qed

lemma mod8_lt: "k < width mod 8 \<longleftrightarrow> 8 * (width div 8) + k < (width::nat)"
proof -
  have "width = 8 * (width div 8) + width mod 8" by simp
  then show ?thesis by linarith
qed

lemma ceil_div8: "nat \<lceil>rat_of_nat n / 8\<rceil> = (n + 7) div 8"
proof -
  define q m where "q = n div 8" and "m = n mod 8"
  have n: "n = 8 * q + m" and m: "m < 8" by (simp_all add: q_def m_def)
  have split: "rat_of_nat n / 8 = of_nat q + of_nat m / 8" unfolding n by simp
  show ?thesis
  proof (cases "m = 0")
    case True
    then have "\<lceil>rat_of_nat n / 8\<rceil> = int q" using split by simp
    then show ?thesis using True by (simp add: ceil8_cases q_def m_def)
  next
    case False
    have "\<lceil>rat_of_nat n / 8\<rceil> = int (Suc q)"
    proof (rule ceiling_unique)
      have "0 < rat_of_nat m / 8" using False by simp
      then show "of_int (int (Suc q)) - 1 < rat_of_nat n / 8" unfolding split by simp
      have "rat_of_nat m / 8 \<le> 1" using m by simp
      then show "rat_of_nat n / 8 \<le> of_int (int (Suc q))" unfolding split by simp
    qed
    then show ?thesis using False by (simp add: ceil8_cases q_def m_def)
  qed
qed

subsection \<open>\<open>pack1bit\<close>, horizontal orientation\<close>

lemma pack1bit_hrow_ok:
  assumes "x = 8 * j + k" "k < 8" "x \<le> width" "y * width + width \<le> length pixels"
    and "bitv = 7 - int k"
    and "cur = byte_of_bits (\<lambda>i. i < k \<and> on_rgb (pixels ! (y * width + (8 * j + i))))"
  shows "pack1bit_hrow pixels width y x bitv cur bytes =
     Inr (7 - int (width mod 8),
          byte_of_bits (\<lambda>i. i < width mod 8 \<and> on_rgb (pixels ! (y * width + (8 * (width div 8) + i)))),
          bytes @ map (\<lambda>j'. byte_of_bits (\<lambda>i. on_rgb (pixels ! (y * width + (8 * j' + i))))) [j..<width div 8])"
  using assms
proof (induction pixels width y x bitv cur bytes arbitrary: j k rule: pack1bit_hrow.induct)
  case (1 pixels width y x bitv cur bytes)
  show ?case
  proof (cases "x < width")
    case False
    then have xw: "width = 8 * j + k" using "1.prems" by simp
    then have "width mod 8 = k" "width div 8 = j" using "1.prems"(2) by simp_all
    then show ?thesis using False "1.prems" by (subst pack1bit_hrow.simps) simp
  next
    case True
    let ?p = "pixels ! (y * width + x)"
    have "I width x y < length pixels" using True "1.prems" by (simp add: I_def)
    then have pa: "pixel_at pixels (I width x y) = Inr ?p"
      by (simp add: pixel_at_ok I_def)
    define cur1 where "cur1 = (if on_rgb ?p then js_or cur (js_shl 1 bitv) else cur)"
    have cur1: "cur1 = byte_of_bits (\<lambda>i. i < Suc k \<and> on_rgb (pixels ! (y * width + (8 * j + i))))"
    proof (cases "on_rgb ?p")
      case True
      then have "cur1 = byte_of_bits (\<lambda>i. (i < k \<and> on_rgb (pixels ! (y * width + (8 * j + i)))) \<or> i = k)"
        using "1.prems" by (simp add: cur1_def byte_of_bits_set)
      also have "\<dots> = byte_of_bits (\<lambda>i. i < Suc k \<and> on_rgb (pixels ! (y * width + (8 * j + i))))"
        using True "1.prems"(1) by (intro byte_of_bits_cong) (auto simp: less_Suc_eq)
      finally show ?thesis .
    next
      case False
      then have "cur1 = byte_of_bits (\<lambda>i. i < k \<and> on_rgb (pixels ! (y * width + (8 * j + i))))"
        using "1.prems" by (simp add: cur1_def)
      also have "\<dots> = byte_of_bits (\<lambda>i. i < Suc k \<and> on_rgb (pixels ! (y * width + (8 * j + i))))"
        using False "1.prems"(1) by (intro byte_of_bits_cong) (auto simp: less_Suc_eq)
      finally show ?thesis .
    qed
    show ?thesis
    proof (cases "k = 7")
      case k7: True
      then have neg: "bitv - 1 < 0" using "1.prems" by simp
      have jlt: "j < width div 8" using True "1.prems"(1) k7 by simp
      have full: "cur1 = byte_of_bits (\<lambda>i. on_rgb (pixels ! (y * width + (8 * j + i))))"
        unfolding cur1 using k7 by (intro byte_of_bits_cong) simp
      have zero: "(0::int) = byte_of_bits (\<lambda>i. i < 0 \<and> on_rgb (pixels ! (y * width + (8 * Suc j + i))))"
        by (simp add: byte_of_bits_False)
      have step: "pack1bit_hrow pixels width y (x + 1) 7 0 (bytes @ [cur1]) =
         Inr (7 - int (width mod 8),
          byte_of_bits (\<lambda>i. i < width mod 8 \<and> on_rgb (pixels ! (y * width + (8 * (width div 8) + i)))),
          (bytes @ [cur1]) @ map (\<lambda>j'. byte_of_bits (\<lambda>i. on_rgb (pixels ! (y * width + (8 * j' + i))))) [Suc j..<width div 8])"
        using True "1.prems" k7
        by (intro "1.IH"(1) [OF True pa cur1_def neg, where j = "Suc j" and k = 0] zero) simp_all
      have "pack1bit_hrow pixels width y x bitv cur bytes = pack1bit_hrow pixels width y (x + 1) 7 0 (bytes @ [cur1])"
        using True pa neg by (subst pack1bit_hrow.simps) (simp add: cur1_def Let_def)
      then show ?thesis using step jlt full by (simp add: upt_conv_Cons)
    next
      case k7: False
      then have nneg: "\<not> bitv - 1 < 0" using "1.prems" by simp
      have step: "pack1bit_hrow pixels width y (x + 1) (bitv - 1) cur1 bytes =
         Inr (7 - int (width mod 8),
          byte_of_bits (\<lambda>i. i < width mod 8 \<and> on_rgb (pixels ! (y * width + (8 * (width div 8) + i)))),
          bytes @ map (\<lambda>j'. byte_of_bits (\<lambda>i. on_rgb (pixels ! (y * width + (8 * j' + i))))) [j..<width div 8])"
        using True "1.prems" k7 cur1
        by (intro "1.IH"(2) [OF True pa cur1_def nneg, where j = j and k = "Suc k"]) simp_all
      have "pack1bit_hrow pixels width y x bitv cur bytes = pack1bit_hrow pixels width y (x + 1) (bitv - 1) cur1 bytes"
        using True pa nneg by (subst pack1bit_hrow.simps) (simp add: cur1_def Let_def)
      then show ?thesis using step by simp
    qed
  qed
qed

lemma hrow_flush:
  "(if 7 - int (width mod 8) \<noteq> 7
    then (bytes @ map (\<lambda>j'. byte_of_bits (\<lambda>i. on_rgb (pixels ! (y * width + (8 * j' + i))))) [0..<width div 8])
           @ [byte_of_bits (\<lambda>i. i < width mod 8 \<and> on_rgb (pixels ! (y * width + (8 * (width div 8) + i))))]
    else bytes @ map (\<lambda>j'. byte_of_bits (\<lambda>i. on_rgb (pixels ! (y * width + (8 * j' + i))))) [0..<width div 8])
   = bytes @ map (\<lambda>j. byte_of_bits (\<lambda>i. 8 * j + i < width \<and> on_rgb (pixels ! (y * width + (8 * j + i)))))
               [0..<(width + 7) div 8]"
proof -
  have full: "map (\<lambda>j'. byte_of_bits (\<lambda>i. on_rgb (pixels ! (y * width + (8 * j' + i))))) [0..<width div 8]
      = map (\<lambda>j. byte_of_bits (\<lambda>i. 8 * j + i < width \<and> on_rgb (pixels ! (y * width + (8 * j + i)))))
          [0..<width div 8]"
  proof (rule map_cong [OF refl], rule byte_of_bits_cong)
    fix j k assume jk: "j \<in> set [0..<width div 8]" "k < (8::nat)"
    then have "Suc j \<le> width div 8" by simp
    then have "8 * Suc j \<le> 8 * (width div 8)" by simp
    also have "\<dots> \<le> width" by simp
    finally have "8 * j + k < width" using jk(2) by simp
    then show "on_rgb (pixels ! (y * width + (8 * j + k))) =
       (8 * j + k < width \<and> on_rgb (pixels ! (y * width + (8 * j + k))))" by simp
  qed
  show ?thesis
  proof (cases "width mod 8 = 0")
    case True
    then have "(width + 7) div 8 = width div 8" by (simp add: ceil8_cases)
    then show ?thesis using True full by simp
  next
    case False
    then have n: "(width + 7) div 8 = Suc (width div 8)" by (simp add: ceil8_cases)
    have last: "byte_of_bits (\<lambda>i. i < width mod 8 \<and> on_rgb (pixels ! (y * width + (8 * (width div 8) + i))))
       = byte_of_bits (\<lambda>i. 8 * (width div 8) + i < width \<and> on_rgb (pixels ! (y * width + (8 * (width div 8) + i))))"
    proof (rule byte_of_bits_cong)
      fix k :: nat assume "k < 8"
      have "k < width mod 8 \<longleftrightarrow> 8 * (width div 8) + k < width" by (rule mod8_lt)
      then show "(k < width mod 8 \<and> on_rgb (pixels ! (y * width + (8 * (width div 8) + k)))) =
        (8 * (width div 8) + k < width \<and> on_rgb (pixels ! (y * width + (8 * (width div 8) + k))))"
        by simp
    qed
    show ?thesis using False by (simp add: n full last)
  qed
qed

lemma pack1bit_hrows_ok:
  "y \<le> height \<Longrightarrow> height * width \<le> length pixels \<Longrightarrow>
   pack1bit_hrows pixels width height y bytes =
     Inr (bytes @ concat (map (\<lambda>y'. map (\<lambda>j. byte_of_bits (\<lambda>i. 8 * j + i < width \<and>
                 on_rgb (pixels ! (y' * width + (8 * j + i))))) [0..<(width + 7) div 8]) [y..<height]))"
proof (induction pixels width height y bytes rule: pack1bit_hrows.induct)
  case (1 pixels width height y bytes)
  show ?case
  proof (cases "y < height")
    case True
    have le: "y * width + width \<le> length pixels"
      using True "1.prems"(2) by (rule mult_le_rows)
    have row: "pack1bit_hrow pixels width y 0 7 0 bytes =
      Inr (7 - int (width mod 8),
          byte_of_bits (\<lambda>i. i < width mod 8 \<and> on_rgb (pixels ! (y * width + (8 * (width div 8) + i)))),
          bytes @ map (\<lambda>j'. byte_of_bits (\<lambda>i. on_rgb (pixels ! (y * width + (8 * j' + i))))) [0..<width div 8])"
      using le by (intro pack1bit_hrow_ok [where j = 0 and k = 0]) (simp_all add: byte_of_bits_False)
    have "pack1bit_hrows pixels width height y bytes =
        pack1bit_hrows pixels width height (y + 1)
          (bytes @ map (\<lambda>j. byte_of_bits (\<lambda>i. 8 * j + i < width \<and>
                 on_rgb (pixels ! (y * width + (8 * j + i))))) [0..<(width + 7) div 8])"
      using True by (subst pack1bit_hrows.simps) (simp only: row hrow_flush if_True sum.case prod.case)
    also have "\<dots> = Inr ((bytes @ map (\<lambda>j. byte_of_bits (\<lambda>i. 8 * j + i < width \<and>
                 on_rgb (pixels ! (y * width + (8 * j + i))))) [0..<(width + 7) div 8])
         @ concat (map (\<lambda>y'. map (\<lambda>j. byte_of_bits (\<lambda>i. 8 * j + i < width \<and>
                 on_rgb (pixels ! (y' * width + (8 * j + i))))) [0..<(width + 7) div 8]) [y + 1..<height]))"
      using True "1.IH" [OF True row refl refl] "1.prems" by (simp only: hrow_flush)
    finally show ?thesis
      by (simp only: upt_conv_Cons [OF True] list.map concat.simps append_assoc Suc_eq_plus1)
  next
    case False
    then show ?thesis using "1.prems" by (subst pack1bit_hrows.simps) simp
  qed
qed

lemma pack1bit_hrow_Inl: "pack1bit_hrow pixels width y x bitv cur bytes = Inl e \<Longrightarrow> e = TypeError"
proof (induction pixels width y x bitv cur bytes rule: pack1bit_hrow.induct)
  case (1 pixels width y x bitv cur bytes)
  show ?case
  proof (cases "pixel_at pixels (I width x y)")
    case (Inl e')
    then show ?thesis using "1.prems" pixel_at_Inl [OF Inl]
      by (subst (asm) pack1bit_hrow.simps) (simp split: if_splits)
  next
    case (Inr p)
    then show ?thesis using "1.prems" "1.IH" [OF _ Inr refl]
      by (subst (asm) pack1bit_hrow.simps) (simp add: Let_def split: if_splits)
  qed
qed

lemma pack1bit_hrow_Inr:
  "pack1bit_hrow pixels width y x bitv cur bytes = Inr res \<Longrightarrow> x < width \<Longrightarrow>
   y * width + width \<le> length pixels"
proof (induction pixels width y x bitv cur bytes rule: pack1bit_hrow.induct)
  case (1 pixels width y x bitv cur bytes)
  from "1.prems" obtain p where pa: "pixel_at pixels (I width x y) = Inr p"
    by (subst (asm) pack1bit_hrow.simps) (auto split: sum.splits)
  show ?case
  proof (cases "x + 1 < width")
    case True
    then show ?thesis using "1.IH" [OF "1.prems"(2) pa refl] "1.prems" pa
      by (subst (asm) (3) pack1bit_hrow.simps) (simp add: Let_def split: if_splits)
  next
    case False
    then have "x + 1 = width" using "1.prems"(2) by simp
    then show ?thesis using pixel_at_Inr [OF pa] by (auto simp: I_def)
  qed
qed

lemma pack1bit_hrows_Inl: "pack1bit_hrows pixels width height y bytes = Inl e \<Longrightarrow> e = TypeError"
proof (induction pixels width height y bytes rule: pack1bit_hrows.induct)
  case (1 pixels width height y bytes)
  show ?case
  proof (cases "pack1bit_hrow pixels width y 0 7 0 bytes")
    case (Inl e')
    then show ?thesis using "1.prems" pack1bit_hrow_Inl [OF Inl]
      by (subst (asm) pack1bit_hrows.simps) (simp split: if_splits)
  next
    case (Inr st)
    obtain bitv cur bytes1 where st: "st = (bitv, cur, bytes1)" by (cases st) auto
    show ?thesis using "1.prems" "1.IH" [OF _ Inr st [symmetric] refl] Inr st
      by (subst (asm) pack1bit_hrows.simps) (simp split: if_splits)
  qed
qed

lemma pack1bit_hrows_Inr:
  "pack1bit_hrows pixels width height y bytes = Inr res \<Longrightarrow> y < height \<Longrightarrow> 0 < width \<Longrightarrow>
   height * width \<le> length pixels"
proof (induction pixels width height y bytes rule: pack1bit_hrows.induct)
  case (1 pixels width height y bytes)
  from "1.prems" obtain st where row: "pack1bit_hrow pixels width y 0 7 0 bytes = Inr st"
    by (subst (asm) pack1bit_hrows.simps) (auto split: sum.splits)
  obtain bitv cur bytes1 where st: "st = (bitv, cur, bytes1)" by (cases st) auto
  show ?case
  proof (cases "y + 1 < height")
    case True
    then show ?thesis using "1.IH" [OF "1.prems"(2) row st [symmetric] refl] "1.prems" row st
      by (subst (asm) (2) pack1bit_hrows.simps) (simp split: if_splits)
  next
    case False
    then have "y + 1 = height" using "1.prems"(2) by simp
    then show ?thesis using pack1bit_hrow_Inr [OF row "1.prems"(3)] by auto
  qed
qed

subsection \<open>\<open>pack1bit\<close>, vertical orientation\<close>

lemma pack1bit_vpage_ok:
  assumes "k \<le> 8" "bitv = 7 - int k" "x < width" "height * width \<le> length pixels"
    and "cur = byte_of_bits (\<lambda>i. i < k \<and> yPage * 8 + i < height \<and>
                 on_rgb (pixels ! ((yPage * 8 + i) * width + x)))"
  shows "pack1bit_vpage pixels width height x yPage bitv cur =
     Inr (byte_of_bits (\<lambda>i. yPage * 8 + i < height \<and> on_rgb (pixels ! ((yPage * 8 + i) * width + x))))"
  using assms
proof (induction pixels width height x yPage bitv cur arbitrary: k rule: pack1bit_vpage.induct)
  case (1 pixels width height x yPage bitv cur)
  show ?case
  proof (cases "bitv \<ge> 0")
    case False
    then have k8: "k = 8" using "1.prems" by simp
    have "cur = byte_of_bits (\<lambda>i. yPage * 8 + i < height \<and> on_rgb (pixels ! ((yPage * 8 + i) * width + x)))"
      unfolding "1.prems"(5) using k8 by (intro byte_of_bits_cong) simp
    then show ?thesis using False by (subst pack1bit_vpage.simps) simp
  next
    case True
    then have k7: "k < 8" and nk: "nat (7 - bitv) = k" using "1.prems" by simp_all
    have bitv1: "bitv - 1 = 7 - int (Suc k)" using "1.prems"(2) by simp
    show ?thesis
    proof (cases "yPage * 8 + k < height")
      case inh: True
      let ?y = "yPage * 8 + k"
      let ?p = "pixels ! (?y * width + x)"
      have "?y * width + width \<le> length pixels" using inh "1.prems"(4) by (rule mult_le_rows)
      then have "I width x ?y < length pixels" using "1.prems"(3) by (simp add: I_def)
      then have pa: "pixel_at pixels (I width x (yPage * 8 + nat (7 - bitv))) = Inr ?p"
        by (simp add: pixel_at_ok I_def nk)
      define cur1 where "cur1 = (if on_rgb ?p then js_or cur (js_shl 1 bitv) else cur)"
      have cur1: "cur1 = byte_of_bits (\<lambda>i. i < Suc k \<and> yPage * 8 + i < height \<and>
                 on_rgb (pixels ! ((yPage * 8 + i) * width + x)))"
      proof (cases "on_rgb ?p")
        case True
        then have "cur1 = byte_of_bits (\<lambda>i. (i < k \<and> yPage * 8 + i < height \<and>
                 on_rgb (pixels ! ((yPage * 8 + i) * width + x))) \<or> i = k)"
          using "1.prems" k7 by (simp add: cur1_def byte_of_bits_set)
        also have "\<dots> = byte_of_bits (\<lambda>i. i < Suc k \<and> yPage * 8 + i < height \<and>
                 on_rgb (pixels ! ((yPage * 8 + i) * width + x)))"
          using True inh by (intro byte_of_bits_cong) (auto simp: less_Suc_eq)
        finally show ?thesis .
      next
        case False
        then have "cur1 = byte_of_bits (\<lambda>i. i < k \<and> yPage * 8 + i < height \<and>
                 on_rgb (pixels ! ((yPage * 8 + i) * width + x)))"
          using "1.prems" by (simp add: cur1_def)
        also have "\<dots> = byte_of_bits (\<lambda>i. i < Suc k \<and> yPage * 8 + i < height \<and>
                 on_rgb (pixels ! ((yPage * 8 + i) * width + x)))"
          using False by (intro byte_of_bits_cong) (auto simp: less_Suc_eq)
        finally show ?thesis .
      qed
      have inh': "yPage * 8 + nat (7 - bitv) < height" using inh nk by simp
      have step: "pack1bit_vpage pixels width height x yPage (bitv - 1) cur1 =
          Inr (byte_of_bits (\<lambda>i. yPage * 8 + i < height \<and> on_rgb (pixels ! ((yPage * 8 + i) * width + x))))"
        unfolding cur1_def
        using k7 "1.prems"(3,4) cur1 [unfolded cur1_def]
        by (intro "1.IH"(1) [OF True inh' pa, where k = "Suc k"] bitv1) simp_all
      have "pack1bit_vpage pixels width height x yPage bitv cur =
            pack1bit_vpage pixels width height x yPage (bitv - 1) cur1"
        using True inh' pa by (subst pack1bit_vpage.simps) (simp add: cur1_def)
      then show ?thesis using step by simp
    next
      case outh: False
      have cur': "cur = byte_of_bits (\<lambda>i. i < Suc k \<and> yPage * 8 + i < height \<and>
                 on_rgb (pixels ! ((yPage * 8 + i) * width + x)))"
        unfolding "1.prems"(5) using outh by (intro byte_of_bits_cong) (auto simp: less_Suc_eq)
      have outh': "\<not> yPage * 8 + nat (7 - bitv) < height" using outh nk by simp
      have step: "pack1bit_vpage pixels width height x yPage (bitv - 1) cur =
          Inr (byte_of_bits (\<lambda>i. yPage * 8 + i < height \<and> on_rgb (pixels ! ((yPage * 8 + i) * width + x))))"
        using k7 "1.prems"(3,4) cur'
        by (intro "1.IH"(2) [OF True outh', where k = "Suc k"] bitv1) simp_all
      have "pack1bit_vpage pixels width height x yPage bitv cur =
            pack1bit_vpage pixels width height x yPage (bitv - 1) cur"
        using True outh' by (subst pack1bit_vpage.simps) simp
      then show ?thesis using step by simp
    qed
  qed
qed

lemma pack1bit_vpages_ok:
  "x < width \<Longrightarrow> height * width \<le> length pixels \<Longrightarrow>
   pack1bit_vpages pixels width height x yPage bytes =
     Inr (bytes @ map (\<lambda>pg. byte_of_bits (\<lambda>i. pg * 8 + i < height \<and>
             on_rgb (pixels ! ((pg * 8 + i) * width + x)))) [yPage..<pages height])"
proof (induction pixels width height x yPage bytes rule: pack1bit_vpages.induct)
  case (1 pixels width height x yPage bytes)
  show ?case
  proof (cases "yPage < pages height")
    case True
    have page: "pack1bit_vpage pixels width height x yPage 7 0 =
       Inr (byte_of_bits (\<lambda>i. yPage * 8 + i < height \<and> on_rgb (pixels ! ((yPage * 8 + i) * width + x))))"
      using "1.prems" by (intro pack1bit_vpage_ok [where k = 0]) (simp_all add: byte_of_bits_False)
    have "pack1bit_vpages pixels width height x yPage bytes =
       pack1bit_vpages pixels width height x (yPage + 1)
         (bytes @ [byte_of_bits (\<lambda>i. yPage * 8 + i < height \<and> on_rgb (pixels ! ((yPage * 8 + i) * width + x)))])"
      using True by (subst pack1bit_vpages.simps) (simp only: page if_True sum.case)
    also have "\<dots> = Inr ((bytes @ [byte_of_bits (\<lambda>i. yPage * 8 + i < height \<and>
                 on_rgb (pixels ! ((yPage * 8 + i) * width + x)))])
           @ map (\<lambda>pg. byte_of_bits (\<lambda>i. pg * 8 + i < height \<and>
             on_rgb (pixels ! ((pg * 8 + i) * width + x)))) [yPage + 1..<pages height])"
      using "1.IH" [OF True page] "1.prems" by simp
    finally show ?thesis
      by (simp only: upt_conv_Cons [OF True] list.map append_assoc append.simps Suc_eq_plus1)
  next
    case False
    then show ?thesis by (subst pack1bit_vpages.simps) simp
  qed
qed

lemma pack1bit_vcols_ok:
  "x \<le> width \<Longrightarrow> height * width \<le> length pixels \<Longrightarrow>
   pack1bit_vcols pixels width height x bytes =
     Inr (bytes @ concat (map (\<lambda>x'. map (\<lambda>pg. byte_of_bits (\<lambda>i. pg * 8 + i < height \<and>
             on_rgb (pixels ! ((pg * 8 + i) * width + x')))) [0..<pages height]) [x..<width]))"
proof (induction pixels width height x bytes rule: pack1bit_vcols.induct)
  case (1 pixels width height x bytes)
  show ?case
  proof (cases "x < width")
    case True
    note col = pack1bit_vpages_ok [OF True "1.prems"(2), of 0 bytes]
    have "pack1bit_vcols pixels width height x bytes =
       pack1bit_vcols pixels width height (x + 1)
         (bytes @ map (\<lambda>pg. byte_of_bits (\<lambda>i. pg * 8 + i < height \<and>
             on_rgb (pixels ! ((pg * 8 + i) * width + x)))) [0..<pages height])"
      using True by (subst pack1bit_vcols.simps) (simp only: col if_True sum.case)
    also have "\<dots> = Inr ((bytes @ map (\<lambda>pg. byte_of_bits (\<lambda>i. pg * 8 + i < height \<and>
             on_rgb (pixels ! ((pg * 8 + i) * width + x)))) [0..<pages height])
          @ concat (map (\<lambda>x'. map (\<lambda>pg. byte_of_bits (\<lambda>i. pg * 8 + i < height \<and>
             on_rgb (pixels ! ((pg * 8 + i) * width + x')))) [0..<pages height]) [x + 1..<width]))"
      using "1.IH" [OF True col] True "1.prems" by simp
    finally show ?thesis
      by (simp only: upt_conv_Cons [OF True] list.map concat.simps append_assoc Suc_eq_plus1)
  next
    case False
    then show ?thesis using "1.prems" by (subst pack1bit_vcols.simps) simp
  qed
qed

lemma pack1bit_vpage_Inl: "pack1bit_vpage pixels width height x yPage bitv cur = Inl e \<Longrightarrow> e = TypeError"
proof (induction pixels width height x yPage bitv cur rule: pack1bit_vpage.induct)
  case (1 pixels width height x yPage bitv cur)
  show ?case
  proof (cases "yPage * 8 + nat (7 - bitv) < height")
    case inh: True
    show ?thesis
    proof (cases "pixel_at pixels (I width x (yPage * 8 + nat (7 - bitv)))")
      case (Inl e')
      then show ?thesis using "1.prems" pixel_at_Inl [OF Inl] inh
        by (subst (asm) pack1bit_vpage.simps) (simp split: if_splits)
    next
      case (Inr p)
      then show ?thesis using "1.prems" "1.IH"(1) [OF _ inh Inr] inh
        by (subst (asm) pack1bit_vpage.simps) (simp split: if_splits)
    qed
  next
    case False
    then show ?thesis using "1.prems" "1.IH"(2) [OF _ False]
      by (subst (asm) pack1bit_vpage.simps) (simp split: if_splits)
  qed
qed

lemma pack1bit_vpage_Inr:
  "pack1bit_vpage pixels width height x yPage bitv cur = Inr res \<Longrightarrow>
   0 \<le> bitv' \<Longrightarrow> bitv' \<le> bitv \<Longrightarrow> yPage * 8 + nat (7 - bitv') < height \<Longrightarrow>
   I width x (yPage * 8 + nat (7 - bitv')) < length pixels"
proof (induction pixels width height x yPage bitv cur rule: pack1bit_vpage.induct)
  case (1 pixels width height x yPage bitv cur)
  have nonneg: "0 \<le> bitv" using "1.prems" by simp
  show ?case
  proof (cases "bitv' = bitv")
    case True
    then have inh: "yPage * 8 + nat (7 - bitv) < height" using "1.prems" by simp
    from "1.prems"(1) obtain p where "pixel_at pixels (I width x (yPage * 8 + nat (7 - bitv))) = Inr p"
      using nonneg inh by (subst (asm) pack1bit_vpage.simps) (auto split: sum.splits)
    then show ?thesis using pixel_at_Inr True by blast
  next
    case False
    then have le: "bitv' \<le> bitv - 1" using "1.prems" by simp
    show ?thesis
    proof (cases "yPage * 8 + nat (7 - bitv) < height")
      case inh: True
      from "1.prems"(1) obtain p where pa: "pixel_at pixels (I width x (yPage * 8 + nat (7 - bitv))) = Inr p"
        using nonneg inh by (subst (asm) pack1bit_vpage.simps) (auto split: sum.splits)
      have "pack1bit_vpage pixels width height x yPage (bitv - 1)
               (if on_rgb p then js_or cur (js_shl 1 bitv) else cur) = Inr res"
        using "1.prems"(1) nonneg inh pa by (subst (asm) pack1bit_vpage.simps) simp
      then show ?thesis using "1.IH"(1) [OF nonneg inh pa _ "1.prems"(2) le "1.prems"(4)] by simp
    next
      case outh: False
      have "pack1bit_vpage pixels width height x yPage (bitv - 1) cur = Inr res"
        using "1.prems"(1) nonneg outh by (subst (asm) pack1bit_vpage.simps) simp
      then show ?thesis using "1.IH"(2) [OF nonneg outh _ "1.prems"(2) le "1.prems"(4)] by simp
    qed
  qed
qed

lemma pack1bit_vpages_Inl: "pack1bit_vpages pixels width height x yPage bytes = Inl e \<Longrightarrow> e = TypeError"
proof (induction pixels width height x yPage bytes rule: pack1bit_vpages.induct)
  case (1 pixels width height x yPage bytes)
  show ?case
  proof (cases "pack1bit_vpage pixels width height x yPage 7 0")
    case (Inl e')
    then show ?thesis using "1.prems" pack1bit_vpage_Inl [OF Inl]
      by (subst (asm) pack1bit_vpages.simps) (simp split: if_splits)
  next
    case (Inr c)
    then show ?thesis using "1.prems" "1.IH" [OF _ Inr]
      by (subst (asm) pack1bit_vpages.simps) (simp split: if_splits)
  qed
qed

lemma pack1bit_vpages_Inr:
  "pack1bit_vpages pixels width height x yPage bytes = Inr res \<Longrightarrow>
   yPage \<le> pg \<Longrightarrow> pg < pages height \<Longrightarrow> \<exists>c. pack1bit_vpage pixels width height x pg 7 0 = Inr c"
proof (induction pixels width height x yPage bytes rule: pack1bit_vpages.induct)
  case (1 pixels width height x yPage bytes)
  have lt: "yPage < pages height" using "1.prems" by simp
  from "1.prems"(1) obtain c where page: "pack1bit_vpage pixels width height x yPage 7 0 = Inr c"
    using lt by (subst (asm) pack1bit_vpages.simps) (auto split: sum.splits)
  show ?case
  proof (cases "pg = yPage")
    case True
    then show ?thesis using page by blast
  next
    case False
    then have le: "yPage + 1 \<le> pg" using "1.prems" by simp
    have "pack1bit_vpages pixels width height x (yPage + 1) (bytes @ [c]) = Inr res"
      using "1.prems"(1) lt page by (subst (asm) pack1bit_vpages.simps) simp
    then show ?thesis using "1.IH" [OF lt page _ le "1.prems"(3)] by simp
  qed
qed

lemma pack1bit_vcols_Inl: "pack1bit_vcols pixels width height x bytes = Inl e \<Longrightarrow> e = TypeError"
proof (induction pixels width height x bytes rule: pack1bit_vcols.induct)
  case (1 pixels width height x bytes)
  show ?case
  proof (cases "pack1bit_vpages pixels width height x 0 bytes")
    case (Inl e')
    then show ?thesis using "1.prems" pack1bit_vpages_Inl [OF Inl]
      by (subst (asm) pack1bit_vcols.simps) (simp split: if_splits)
  next
    case (Inr bs)
    then show ?thesis using "1.prems" "1.IH" [OF _ Inr]
      by (subst (asm) pack1bit_vcols.simps) (simp split: if_splits)
  qed
qed

lemma pack1bit_vcols_Inr:
  "pack1bit_vcols pixels width height x bytes = Inr res \<Longrightarrow>
   x \<le> x' \<Longrightarrow> x' < width \<Longrightarrow> \<exists>bs res'. pack1bit_vpages pixels width height x' 0 bs = Inr res'"
proof (induction pixels width height x bytes rule: pack1bit_vcols.induct)
  case (1 pixels width height x bytes)
  have lt: "x < width" using "1.prems" by simp
  from "1.prems"(1) obtain bs where col: "pack1bit_vpages pixels width height x 0 bytes = Inr bs"
    using lt by (subst (asm) pack1bit_vcols.simps) (auto split: sum.splits)
  show ?case
  proof (cases "x' = x")
    case True
    then show ?thesis using col by blast
  next
    case False
    then have le: "x + 1 \<le> x'" using "1.prems" by simp
    have "pack1bit_vcols pixels width height (x + 1) bs = Inr res"
      using "1.prems"(1) lt col by (subst (asm) pack1bit_vcols.simps) simp
    then show ?thesis using "1.IH" [OF lt col _ le "1.prems"(3)] by simp
  qed
qed

lemma div8_lt_pages: "y < height \<Longrightarrow> y div 8 < pages height"
proof -
  assume "y < height"
  then have "y div 8 \<le> (height - 1) div 8" by (intro div_le_mono) simp
  also have "\<dots> < (height + 7) div 8"
  proof -
    have "(height - 1) + 8 = height + 7" using \<open>y < height\<close> by simp
    then have "(height + 7) div 8 = Suc ((height - 1) div 8)"
      by (metis add.commute div_add_self1 plus_1_eq_Suc zero_neq_numeral add.commute)
    then show ?thesis by simp
  qed
  finally show ?thesis by (simp add: pages_def ceil_div8)
qed

lemma pack1bit_vcols_reads:
  assumes "pack1bit_vcols pixels width height 0 bytes = Inr res" "x < width" "y < height"
  shows "y * width + x < length pixels"
proof -
  from pack1bit_vcols_Inr [OF assms(1) le0 assms(2)] obtain bs res'
    where col: "pack1bit_vpages pixels width height x 0 bs = Inr res'" by blast
  from pack1bit_vpages_Inr [OF col le0 div8_lt_pages [OF assms(3)]] obtain c
    where page: "pack1bit_vpage pixels width height x (y div 8) 7 0 = Inr c" by blast
  have y: "y div 8 * 8 + nat (7 - (7 - int (y mod 8))) = y" by simp
  have "I width x (y div 8 * 8 + nat (7 - (7 - int (y mod 8)))) < length pixels"
    using assms(3) by (intro pack1bit_vpage_Inr [OF page]) (simp_all add: y)
  then show ?thesis by (simp add: I_def y del: of_nat_mod)
qed

subsection \<open>\<open>pack1bit\<close>: the packed output in closed form\<close>

lemma concat_rows_general:
  assumes "0 < n"
  shows "concat (map (\<lambda>y. map (F y) [0..<n]) [0..<h]) = map (\<lambda>i. F (i div n) (i mod n)) [0..<h * n]"
proof -
  have "concat (map (\<lambda>y. map (F y) [0..<n]) [0..<h])
      = concat (map (\<lambda>y. map (\<lambda>j. F ((y * n + j) div n) ((y * n + j) mod n)) [0..<n]) [0..<h])"
    by (intro arg_cong [where f = concat] map_cong refl) simp
  also have "\<dots> = map (\<lambda>i. F (i div n) (i mod n)) [0..<h * n]"
    by (rule concat_rows_upt [where F = "\<lambda>i. F (i div n) (i mod n)"])
  finally show ?thesis .
qed

lemma concat_rows_length: "length (concat (map (\<lambda>y. map (F y) [0..<n]) [0..<h])) = h * n"
  by (induction h) simp_all

lemma mult_add_less: "y < h \<Longrightarrow> j < n \<Longrightarrow> y * n + j < h * (n::nat)"
proof -
  assume "y < h" "j < n"
  then have "y * n + n \<le> h * n" using mult_le_rows [of y h n "h * n"] by simp
  then show ?thesis using \<open>j < n\<close> by simp
qed

lemma concat_rows_nth:
  assumes "y < h" "j < n"
  shows "concat (map (\<lambda>y. map (F y) [0..<n]) [0..<h]) ! (y * n + j) = F y j"
proof -
  have pos: "0 < n" using assms by simp
  have lt: "y * n + j < h * n" using assms by (rule mult_add_less)
  show ?thesis
    unfolding concat_rows_general [OF pos] using lt assms by simp
qed

lemma ascii_orientations: "ascii ''vertical'' \<noteq> ascii ''horizontal''"
  by (simp add: ascii_def)

lemma pack1bit_horizontal:
  assumes "w * h \<le> length pixels"
  shows "pack1bit pixels w h (ascii ''horizontal'') =
     Inr (concat (map (\<lambda>y. map (\<lambda>j. byte_of_bits (\<lambda>i. 8 * j + i < w \<and>
                 on_rgb (pixels ! (y * w + (8 * j + i))))) [0..<(w + 7) div 8]) [0..<h]))"
proof -
  have le: "h * w \<le> length pixels" using assms by (simp add: mult.commute)
  show ?thesis
    unfolding pack1bit_def using pack1bit_hrows_ok [OF le0 le, of "[]"] by simp
qed

lemma pack1bit_vertical:
  assumes "w * h \<le> length pixels"
  shows "pack1bit pixels w h (ascii ''vertical'') =
     Inr (concat (map (\<lambda>x. map (\<lambda>pg. byte_of_bits (\<lambda>i. pg * 8 + i < h \<and>
             on_rgb (pixels ! ((pg * 8 + i) * w + x)))) [0..<pages h]) [0..<w]))"
proof -
  have le: "h * w \<le> length pixels" using assms by (simp add: mult.commute)
  show ?thesis
    unfolding pack1bit_def using pack1bit_vcols_ok [OF le0 le, of "[]"]
    by (simp add: ascii_orientations)
qed

subsection \<open>Double-precision arithmetic: the rounding error, and exact results\<close>

lemma round_half_even_error: "\<bar>of_int (round_half_even m) - m\<bar> \<le> 1 / 2"
proof -
  define f where "f = \<lfloor>m\<rfloor>"
  define d where "d = m - of_int f"
  have d: "0 \<le> d" "d < 1" unfolding d_def f_def by linarith+
  have m: "m = of_int f + d" by (simp add: d_def)
  have "round_half_even m = f \<or> round_half_even m = f + 1"
    by (simp add: round_half_even_def Let_def f_def)
  moreover have "d \<le> 1 / 2" if "round_half_even m = f"
    using that unfolding round_half_even_def Let_def f_def [symmetric] d_def [symmetric]
    by (auto split: if_splits)
  moreover have "1 / 2 \<le> d" if "round_half_even m = f + 1"
    using that unfolding round_half_even_def Let_def f_def [symmetric] d_def [symmetric]
    by (auto split: if_splits)
  ultimately show ?thesis using d unfolding m by auto
qed

lemma ilog2_lower:
  assumes "0 < x"
  shows "2 powi (ilog2 x) \<le> x"
proof -
  obtain p q where pq: "quotient_of x = (p, q)" by (cases "quotient_of x")
  have q: "0 < q" using pq by (rule quotient_of_denom_pos)
  have x: "x = of_int p / of_int q" using pq by (rule quotient_of_div)
  have p: "0 < p"
  proof (rule ccontr)
    assume "\<not> 0 < p"
    then have "of_int p \<le> (0::rat)" by simp
    then have "x \<le> 0" unfolding x using q by (simp add: divide_nonpos_pos)
    then show False using assms by simp
  qed
  define lp where "lp = floorlog 2 (nat p)"
  define lq where "lq = floorlog 2 (nat q)"
  have bp: "2 ^ (lp - 1) \<le> nat p" using floorlog_bounds [of "nat p" 2] p by (simp add: lp_def)
  have bq: "nat q < 2 ^ lq" using floorlog_bounds [of "nat q" 2] q by (simp add: lq_def)
  have lp1: "1 \<le> lp"
  proof -
    have "floorlog 2 (nat p) \<noteq> 0" using p floorlog_eq_zero_iff [of 2 "nat p"] by simp
    then show ?thesis by (simp add: lp_def)
  qed
  have eq: "ilog2 x = (if 2 powi (int lp - int lq) \<le> x then int lp - int lq else int lp - int lq - 1)"
    by (simp add: ilog2_def pq lp_def lq_def Let_def)
  show ?thesis
  proof (cases "2 powi (int lp - int lq) \<le> x")
    case True
    then show ?thesis by (simp add: eq)
  next
    case False
    have "(2::rat) ^ (lp - 1) \<le> of_int p"
    proof -
      have "int (2 ^ (lp - 1)) \<le> p" using bp p by linarith
      then have "rat_of_int (int (2 ^ (lp - 1))) \<le> of_int p" by (simp only: of_int_le_iff)
      then show ?thesis by simp
    qed
    moreover have "of_int q \<le> (2::rat) ^ lq"
    proof -
      have "q \<le> int (2 ^ lq)" using bq q by linarith
      then have "rat_of_int q \<le> rat_of_int (int (2 ^ lq))" by (simp only: of_int_le_iff)
      then show ?thesis by simp
    qed
    ultimately have "(2::rat) ^ (lp - 1) / 2 ^ lq \<le> of_int p / of_int q"
      using q p by (intro frac_le) simp_all
    moreover have "(2::rat) powi (int lp - int lq - 1) = 2 ^ (lp - 1) / 2 ^ lq"
    proof -
      have "int lp - int lq - 1 = int (lp - 1) - int lq" using lp1 by simp
      moreover have "(2::rat) powi (int (lp - 1) - int lq) = 2 powi int (lp - 1) / 2 powi int lq"
        by (rule power_int_diff) simp
      ultimately show ?thesis by (simp only: power_int_of_nat)
    qed
    ultimately have "(2::rat) powi (int lp - int lq - 1) \<le> x" by (simp only: x)
    moreover have "ilog2 x = int lp - int lq - 1" using False by (simp add: eq)
    ultimately show ?thesis by simp
  qed
qed



lemma round_half_even_of_int: "round_half_even (of_int z) = z"
  by (simp add: round_half_even_def Let_def)

lemma fl_dyadic:
  assumes "x = of_int m * 2 powi j" "\<bar>m\<bar> < 2 ^ 53"
  shows "fl x = x"
proof (cases "x = 0")
  case True
  then show ?thesis by (simp add: fl_def)
next
  case False
  define e where "e = ilog2 \<bar>x\<bar>"
  have lower: "2 powi e \<le> \<bar>x\<bar>" unfolding e_def using False by (intro ilog2_lower) simp
  have absx: "\<bar>x\<bar> = of_int \<bar>m\<bar> * 2 powi j" by (simp add: assms(1) abs_mult)
  have "rat_of_int \<bar>m\<bar> < rat_of_int (2 ^ 53)" using assms(2) by (simp only: of_int_less_iff)
  then have "rat_of_int \<bar>m\<bar> < 2 powi 53" by simp
  then have "\<bar>x\<bar> < 2 powi 53 * 2 powi j" unfolding absx by (intro mult_strict_right_mono) simp_all
  also have "\<dots> = 2 powi (53 + j)" by (simp add: power_int_add)
  finally have "(2::rat) powi e < 2 powi (53 + j)" using lower by simp
  then have "e < 53 + j"
    using power_int_increasing [of "53 + j" e "2::rat"] by (cases "e < 53 + j") simp_all
  then have k: "0 \<le> j - (e - 52)" by simp
  define k where "k = nat (j - (e - 52))"
  have jk: "j = (e - 52) + int k" using k by (simp add: k_def)
  define u :: rat where "u = 2 powi (e - 52)"
  have u: "u \<noteq> 0" by (simp add: u_def)
  have "x = of_int m * (2 powi (e - 52) * 2 powi int k)"
    unfolding assms(1) by (subst jk) (simp add: power_int_add)
  then have xu: "x = of_int (m * 2 ^ k) * u" by (simp add: u_def)
  then have "x / u = of_int (m * 2 ^ k)" using u by simp
  then have "round_half_even (x / u) = m * 2 ^ k" by (simp only: round_half_even_of_int)
  moreover have "fl x = of_int (round_half_even (x / u)) * u"
    using False by (simp add: fl_def Let_def u_def e_def)
  ultimately show ?thesis using xu by simp
qed

lemma fl_of_int: "\<bar>m\<bar> < 2 ^ 53 \<Longrightarrow> fl (of_int m) = of_int m"
  using fl_dyadic [of "of_int m" m 0] by simp

lemma fl_half: "\<bar>m\<bar> < 2 ^ 53 \<Longrightarrow> fl (of_int m / 2) = of_int m / 2"
  using fl_dyadic [of "of_int m / 2" m "-1"] by simp

lemma threshold_value: "fdiv (fmul 255 3) 2 = 765 / 2"
proof -
  have "fmul 255 3 = 765" using fl_of_int [of 765] by (simp add: fmul_def)
  then show ?thesis using fl_half [of 765] by (simp add: fdiv_def)
qed

lemma on_rgb_iff:
  assumes "wf_pixel p"
  shows "on_rgb p \<longleftrightarrow> r p + g p + b p > 382"
proof -
  define s where "s = r p + g p + b p"
  have b1: "\<bar>r p + g p\<bar> < 2 ^ 53" and b2: "\<bar>r p + g p + b p\<bar> < 2 ^ 53"
    using assms by (simp_all add: wf_pixel_def)
  have "fadd (of_int (r p)) (of_int (g p)) = of_int (r p + g p)"
    using fl_of_int [OF b1] by (simp add: fadd_def)
  then have sum: "fadd (fadd (of_int (r p)) (of_int (g p))) (of_int (b p)) = of_int s"
    using fl_of_int [OF b2] by (simp add: fadd_def s_def)
  have "rat_of_int s > 765 / 2 \<longleftrightarrow> rat_of_int 2 * rat_of_int s > rat_of_int 765"
    by simp linarith
  also have "\<dots> \<longleftrightarrow> rat_of_int (2 * s) > rat_of_int 765" by (simp only: of_int_mult)
  also have "\<dots> \<longleftrightarrow> 2 * s > 765" by (simp only: of_int_less_iff)
  also have "\<dots> \<longleftrightarrow> s > 382" by linarith
  finally show ?thesis by (simp add: on_rgb_def sum threshold_value s_def)
qed

lemma on_rgb_white: "on_rgb white"
  by (simp add: on_rgb_iff wf_pixel_def white_def)

lemma on_rgb_black: "\<not> on_rgb black"
  by (simp add: on_rgb_iff wf_pixel_def black_def)

lemma on_rgb_transparent: "\<not> on_rgb transparent"
  by (simp add: on_rgb_iff wf_pixel_def transparent_def)

lemma on_rgb_382: "\<not> on_rgb \<lparr>r = 128, g = 127, b = 127, a = 255\<rparr>"
  by (simp add: on_rgb_iff wf_pixel_def)

lemma on_rgb_383: "on_rgb \<lparr>r = 128, g = 127, b = 128, a = 0\<rparr>"
  by (simp add: on_rgb_iff wf_pixel_def)

text \<open>The loops of \<open>pack1bit\<close> unfolded on a concrete image.\<close>

lemmas pack1bit_eval =
  pack1bit_def pack1bit_hrows.simps pack1bit_hrow.simps pack1bit_vcols.simps pack1bit_vpages.simps
  pack1bit_vpage.simps pixel_at_def I_def js_or_def js_shl_def toInt32_def

subsection \<open>Claims C5 and C6: the layout of the 1-bit output\<close>

lemma pack1bit_10x1:
  "pack1bit (replicate 10 white) 10 1 (ascii ''horizontal'') = Inr [0xFF, 0xC0]"
  using on_rgb_white by (simp add: pack1bit_eval)

lemma pack1bit_2x9:
  "pack1bit [black, white, black, black, black, black, black, black, black, black, black, black,
             black, black, black, black, white, black] 2 9 (ascii ''vertical'')
     = Inr [0x00, 0x80, 0x80, 0x00]"
  using on_rgb_white on_rgb_black ceil_div8 [of 9]
  by (simp add: pack1bit_eval pages_def ascii_orientations)

text \<open>
  Claim C5. On a buffer of length \<open>w * h\<close>, \<open>pack1bit\<close> with orientation
  \<open>'horizontal'\<close> returns exactly \<open>ceil(w / 8) * h\<close> bytes. Byte \<open>j\<close> of row \<open>y\<close>
  stands at index \<open>y * ceil(w / 8) + j\<close> (so each row starts a fresh byte); its bit
  \<open>7 - k\<close> is the pixel at column \<open>8 * j + k\<close> of that row, and the bit positions whose
  column would be \<open>w\<close> or more (the low-order bits of a row's last byte) are 0.
\<close>

theorem pack1bit_horizontal_layout:
  assumes "length pixels = w * h"
  shows "\<exists>bytes. pack1bit pixels w h (ascii ''horizontal'') = Inr bytes \<and>
           length bytes = nat \<lceil>rat_of_nat w / 8\<rceil> * h \<and>
           (\<forall>y<h. \<forall>j<nat \<lceil>rat_of_nat w / 8\<rceil>. \<forall>n.
              bit (bytes ! (y * nat \<lceil>rat_of_nat w / 8\<rceil> + j)) n \<longleftrightarrow>
                n < 8 \<and> 8 * j + (7 - n) < w \<and> on_rgb (pixels ! I w (8 * j + (7 - n)) y))"
proof -
  define N where "N = nat \<lceil>rat_of_nat w / 8\<rceil>"
  have N: "(w + 7) div 8 = N" by (simp add: N_def ceil_div8)
  define F where "F = (\<lambda>y j. byte_of_bits (\<lambda>i. 8 * j + i < w \<and> on_rgb (pixels ! (y * w + (8 * j + i)))))"
  define bytes where "bytes = concat (map (\<lambda>y. map (F y) [0..<N]) [0..<h])"
  have eq: "pack1bit pixels w h (ascii ''horizontal'') = Inr bytes"
    using pack1bit_horizontal [of w h pixels] assms by (simp add: bytes_def F_def N)
  have len: "length bytes = N * h"
    by (simp add: bytes_def concat_rows_length mult.commute)
  have bits: "bit (bytes ! (y * N + j)) n \<longleftrightarrow>
                n < 8 \<and> 8 * j + (7 - n) < w \<and> on_rgb (pixels ! I w (8 * j + (7 - n)) y)"
    if "y < h" "j < N" for y j n
    using that by (simp add: bytes_def concat_rows_nth F_def bit_byte_of_bits I_def)
  show ?thesis
    unfolding N_def [symmetric] using eq len bits by blast
qed

theorem pack1bit_horizontal_layout_witness:
  "\<exists>bytes. pack1bit (replicate 10 white) 10 1 (ascii ''horizontal'') = Inr bytes \<and>
     bytes = [0xFF, 0xC0] \<and> length bytes = 2 \<and> bit (bytes ! 1) 7 \<and> bit (bytes ! 1) 6 \<and> \<not> bit (bytes ! 1) 5"
proof -
  have len: "length (replicate 10 white) = 10 * 1" by simp
  have N: "nat \<lceil>rat_of_nat 10 / 8\<rceil> = 2" using ceil_div8 [of 10] by simp
  from pack1bit_horizontal_layout [OF len] obtain bytes where
    eq: "pack1bit (replicate 10 white) 10 1 (ascii ''horizontal'') = Inr bytes"
    and l: "length bytes = nat \<lceil>rat_of_nat 10 / 8\<rceil> * 1"
    and bits: "\<forall>y<1. \<forall>j<nat \<lceil>rat_of_nat 10 / 8\<rceil>. \<forall>n.
              bit (bytes ! (y * nat \<lceil>rat_of_nat 10 / 8\<rceil> + j)) n \<longleftrightarrow>
                n < 8 \<and> 8 * j + (7 - n) < 10 \<and> on_rgb (replicate 10 white ! I 10 (8 * j + (7 - n)) y)"
    by blast
  have on: "on_rgb white" by (rule on_rgb_white)
  have b: "bit (bytes ! 1) n \<longleftrightarrow> n < 8 \<and> 8 + (7 - n) < 10 \<and> on_rgb (replicate 10 white ! I 10 (8 + (7 - n)) 0)" for n
    using bits [rule_format, of 0 1 n] by (simp add: N)
  have "bit (bytes ! 1) 7" "bit (bytes ! 1) 6" "\<not> bit (bytes ! 1) 5"
    using b [of 7] b [of 6] b [of 5] on by (simp_all add: I_def)
  moreover have "bytes = [0xFF, 0xC0]" using eq pack1bit_10x1 by simp
  ultimately show ?thesis using eq l N by simp
qed

text \<open>
  Claim C6. On a buffer of length \<open>w * h\<close>, \<open>pack1bit\<close> with orientation
  \<open>'vertical'\<close> returns exactly \<open>w * ceil(h / 8)\<close> bytes in column-major order: the byte
  of page \<open>pg\<close> of column \<open>x\<close> stands at index \<open>x * ceil(h / 8) + pg\<close>, so all pages of
  column 0 come first, then those of column 1, and so on. Bit \<open>7 - k\<close> of that byte is
  the pixel at row \<open>8 * pg + k\<close> of column \<open>x\<close>, which is the element
  \<open>(8 * pg + k) * w + x\<close> of the row-major buffer (bit 7 the topmost pixel of the page,
  bit 0 the eighth), and a position whose row would be \<open>h\<close> or more is a 0 bit.
\<close>

theorem pack1bit_vertical_layout:
  assumes "length pixels = w * h"
  shows "\<exists>bytes. pack1bit pixels w h (ascii ''vertical'') = Inr bytes \<and>
           length bytes = w * nat \<lceil>rat_of_nat h / 8\<rceil> \<and>
           (\<forall>x<w. \<forall>pg<nat \<lceil>rat_of_nat h / 8\<rceil>. \<forall>n.
              bit (bytes ! (x * nat \<lceil>rat_of_nat h / 8\<rceil> + pg)) n \<longleftrightarrow>
                n < 8 \<and> 8 * pg + (7 - n) < h \<and> on_rgb (pixels ! ((8 * pg + (7 - n)) * w + x)))"
proof -
  define N where "N = nat \<lceil>rat_of_nat h / 8\<rceil>"
  have N: "pages h = N" by (simp add: N_def pages_def)
  define F where "F = (\<lambda>x pg. byte_of_bits (\<lambda>i. pg * 8 + i < h \<and> on_rgb (pixels ! ((pg * 8 + i) * w + x))))"
  define bytes where "bytes = concat (map (\<lambda>x. map (F x) [0..<N]) [0..<w])"
  have eq: "pack1bit pixels w h (ascii ''vertical'') = Inr bytes"
    using pack1bit_vertical [of w h pixels] assms by (simp add: bytes_def F_def N)
  have len: "length bytes = w * N"
    by (simp add: bytes_def concat_rows_length)
  have bits: "bit (bytes ! (x * N + pg)) n \<longleftrightarrow>
                n < 8 \<and> 8 * pg + (7 - n) < h \<and> on_rgb (pixels ! ((8 * pg + (7 - n)) * w + x))"
    if "x < w" "pg < N" for x pg n
    using that by (simp add: bytes_def concat_rows_nth F_def bit_byte_of_bits mult.commute [of 8 pg])
  show ?thesis
    unfolding N_def [symmetric] using eq len bits by blast
qed

theorem pack1bit_vertical_layout_witness:
  "\<exists>bytes. pack1bit [black, white, black, black, black, black, black, black, black, black, black, black,
                     black, black, black, black, white, black] 2 9 (ascii ''vertical'') = Inr bytes \<and>
     bytes = [0x00, 0x80, 0x80, 0x00] \<and> length bytes = 2 * 2 \<and>
     \<not> bit (bytes ! 0) 7 \<and> bit (bytes ! 1) 7 \<and> \<not> bit (bytes ! 1) 6 \<and>
     bit (bytes ! 2) 7 \<and> \<not> bit (bytes ! 3) 7"
proof -
  let ?ps = "[black, white, black, black, black, black, black, black, black, black, black, black,
              black, black, black, black, white, black]"
  have len: "length ?ps = 2 * 9" by simp
  have N: "nat \<lceil>rat_of_nat 9 / 8\<rceil> = 2" using ceil_div8 [of 9] by simp
  from pack1bit_vertical_layout [OF len] obtain bytes where
    eq: "pack1bit ?ps 2 9 (ascii ''vertical'') = Inr bytes"
    and l: "length bytes = 2 * nat \<lceil>rat_of_nat 9 / 8\<rceil>"
    and bits: "\<forall>x<2. \<forall>pg<nat \<lceil>rat_of_nat 9 / 8\<rceil>. \<forall>n.
              bit (bytes ! (x * nat \<lceil>rat_of_nat 9 / 8\<rceil> + pg)) n \<longleftrightarrow>
                n < 8 \<and> 8 * pg + (7 - n) < 9 \<and> on_rgb (?ps ! ((8 * pg + (7 - n)) * 2 + x))"
    by blast
  have b: "bit (bytes ! (x * 2 + pg)) n \<longleftrightarrow>
             n < 8 \<and> 8 * pg + (7 - n) < 9 \<and> on_rgb (?ps ! ((8 * pg + (7 - n)) * 2 + x))"
    if "x < 2" "pg < 2" for x pg n
    using bits [unfolded N, rule_format, of x pg n] that by simp
  have "\<not> bit (bytes ! 0) 7" "bit (bytes ! 1) 7" "\<not> bit (bytes ! 1) 6"
    "bit (bytes ! 2) 7" "\<not> bit (bytes ! 3) 7"
    using b [of 0 0 7] b [of 0 1 7] b [of 0 1 6] b [of 1 0 7] b [of 1 1 7]
      on_rgb_white on_rgb_black by simp_all
  moreover have "bytes = [0x00, 0x80, 0x80, 0x00]" using eq pack1bit_2x9 by simp
  ultimately show ?thesis using eq l N by simp
qed

subsection \<open>Claim C1: the threshold\<close>

lemma div8_lt_ceil: "x < w \<Longrightarrow> x div 8 < (w + 7) div (8::nat)"
  using div8_lt_pages [of x w] by (simp add: pages_def ceil_div8)

text \<open>
  Claim C1, as stated, fails: the threshold of the code is \<open>(255 * 3) / 2 = 382.5\<close>, not
  381. A pixel with \<open>r + g + b = 382\<close> exceeds 381, and its bit is 0 in both orientations.
\<close>

theorem pack1bit_threshold_counterexample:
  "wf_pixel \<lparr>r = 128, g = 127, b = 127, a = 255\<rparr> \<and>
   r \<lparr>r = 128, g = 127, b = 127, a = 255\<rparr> + g \<lparr>r = 128, g = 127, b = 127, a = 255\<rparr>
     + b \<lparr>r = 128, g = 127, b = 127, a = 255\<rparr> > 381 \<and>
   pack1bit [\<lparr>r = 128, g = 127, b = 127, a = 255\<rparr>] 1 1 (ascii ''horizontal'') = Inr [0] \<and>
   pack1bit [\<lparr>r = 128, g = 127, b = 127, a = 255\<rparr>] 1 1 (ascii ''vertical'') = Inr [0] \<and>
   \<not> bit (0 :: int) 7"
  using on_rgb_382 ceil_div8 [of 1]
  by (simp add: pack1bit_eval pages_def ascii_orientations wf_pixel_def)

text \<open>
  Claim C1, amended. For every pixel passed to \<open>pack1bit\<close> (either orientation), the
  emitted bit is 1 if and only if \<open>r + g + b > 382\<close> (the code compares the sum with
  382.5, so the least sum that is ``on'' is 383), where \<open>r\<close>, \<open>g\<close>, \<open>b\<close> are the
  pixel's 8-bit channels; alpha is ignored. The pixel at column \<open>x\<close> of row \<open>y\<close> is
  element \<open>y * w + x\<close> of the buffer; its bit is bit \<open>7 - x mod 8\<close> of byte
  \<open>y * ceil(w / 8) + x div 8\<close> in the horizontal orientation and bit \<open>7 - y mod 8\<close> of
  byte \<open>x * ceil(h / 8) + y div 8\<close> in the vertical one.
\<close>

theorem pack1bit_threshold:
  assumes "length pixels = w * h" "list_all wf_pixel pixels" "x < w" "y < h"
  shows "(\<exists>bytes. pack1bit pixels w h (ascii ''horizontal'') = Inr bytes \<and>
            (bit (bytes ! (y * nat \<lceil>rat_of_nat w / 8\<rceil> + x div 8)) (7 - x mod 8) \<longleftrightarrow>
               r (pixels ! (y * w + x)) + g (pixels ! (y * w + x)) + b (pixels ! (y * w + x)) > 382)) \<and>
         (\<exists>bytes. pack1bit pixels w h (ascii ''vertical'') = Inr bytes \<and>
            (bit (bytes ! (x * nat \<lceil>rat_of_nat h / 8\<rceil> + y div 8)) (7 - y mod 8) \<longleftrightarrow>
               r (pixels ! (y * w + x)) + g (pixels ! (y * w + x)) + b (pixels ! (y * w + x)) > 382))"
proof -
  have le: "w * h \<le> length pixels" using assms(1) by simp
  have "y * w + x < h * w" using assms(4,3) by (rule mult_add_less)
  then have "y * w + x < length pixels" using assms(1) by (simp add: mult.commute)
  then have wf: "wf_pixel (pixels ! (y * w + x))"
    using assms(2) by (simp add: list_all_length)
  note on = on_rgb_iff [OF wf]
  have N: "nat \<lceil>rat_of_nat w / 8\<rceil> = (w + 7) div 8" by (rule ceil_div8)
  have P: "nat \<lceil>rat_of_nat h / 8\<rceil> = pages h" by (simp add: pages_def)
  have xm: "8 * (x div 8) + x mod 8 = x" and ym: "y div 8 * 8 + y mod 8 = y" by simp_all
  have xb: "7 - x mod 8 < 8" "7 - (7 - x mod 8) = x mod 8"
  proof -
    have "7 - x mod 8 \<le> 7" by (rule diff_le_self)
    then show "7 - x mod 8 < 8" by simp
    have "x mod 8 < 8" by simp
    then show "7 - (7 - x mod 8) = x mod 8" by linarith
  qed
  have yb: "7 - y mod 8 < 8" "7 - (7 - y mod 8) = y mod 8"
  proof -
    have "7 - y mod 8 \<le> 7" by (rule diff_le_self)
    then show "7 - y mod 8 < 8" by simp
    have "y mod 8 < 8" by simp
    then show "7 - (7 - y mod 8) = y mod 8" by linarith
  qed
  have "bit (concat (map (\<lambda>y. map (\<lambda>j. byte_of_bits (\<lambda>i. 8 * j + i < w \<and>
                 on_rgb (pixels ! (y * w + (8 * j + i))))) [0..<(w + 7) div 8]) [0..<h])
              ! (y * ((w + 7) div 8) + x div 8)) (7 - x mod 8)
        \<longleftrightarrow> on_rgb (pixels ! (y * w + x))"
    using assms(3,4) div8_lt_ceil [OF assms(3)]
    by (simp add: concat_rows_nth bit_byte_of_bits xm xb)
  then have hor: "\<exists>bytes. pack1bit pixels w h (ascii ''horizontal'') = Inr bytes \<and>
            (bit (bytes ! (y * nat \<lceil>rat_of_nat w / 8\<rceil> + x div 8)) (7 - x mod 8) \<longleftrightarrow>
               r (pixels ! (y * w + x)) + g (pixels ! (y * w + x)) + b (pixels ! (y * w + x)) > 382)"
    unfolding pack1bit_horizontal [OF le] N by (simp only: on) blast
  have "bit (concat (map (\<lambda>x. map (\<lambda>pg. byte_of_bits (\<lambda>i. pg * 8 + i < h \<and>
             on_rgb (pixels ! ((pg * 8 + i) * w + x)))) [0..<pages h]) [0..<w])
              ! (x * pages h + y div 8)) (7 - y mod 8)
        \<longleftrightarrow> on_rgb (pixels ! (y * w + x))"
    using assms(3,4) div8_lt_pages [OF assms(4)]
    by (simp add: concat_rows_nth bit_byte_of_bits ym yb)
  then have ver: "\<exists>bytes. pack1bit pixels w h (ascii ''vertical'') = Inr bytes \<and>
            (bit (bytes ! (x * nat \<lceil>rat_of_nat h / 8\<rceil> + y div 8)) (7 - y mod 8) \<longleftrightarrow>
               r (pixels ! (y * w + x)) + g (pixels ! (y * w + x)) + b (pixels ! (y * w + x)) > 382)"
    unfolding pack1bit_vertical [OF le] P by (simp only: on) blast
  from hor ver show ?thesis by (rule conjI)
qed

theorem pack1bit_threshold_witness:
  "(\<exists>bytes. pack1bit [\<lparr>r = 128, g = 127, b = 127, a = 255\<rparr>, \<lparr>r = 128, g = 127, b = 128, a = 0\<rparr>] 2 1
               (ascii ''horizontal'') = Inr bytes \<and> \<not> bit (bytes ! 0) 7 \<and> bit (bytes ! 0) 6) \<and>
   (\<exists>bytes. pack1bit [\<lparr>r = 128, g = 127, b = 127, a = 255\<rparr>, \<lparr>r = 128, g = 127, b = 128, a = 0\<rparr>] 2 1
               (ascii ''vertical'') = Inr bytes \<and> \<not> bit (bytes ! 0) 7 \<and> bit (bytes ! 1) 7)"
proof -
  let ?ps = "[\<lparr>r = 128, g = 127, b = 127, a = 255\<rparr>, \<lparr>r = 128, g = 127, b = 128, a = (0::int)\<rparr>]"
  have len: "length ?ps = 2 * 1" by simp
  have wf: "list_all wf_pixel ?ps" by (simp add: wf_pixel_def)
  have N: "nat \<lceil>rat_of_nat 2 / 8\<rceil> = 1" "nat \<lceil>rat_of_nat 1 / 8\<rceil> = 1"
    using ceil_div8 [of 2] ceil_div8 [of 1] by simp_all
  have h0: "pack1bit ?ps 2 1 (ascii ''horizontal'') = Inr [0x40]"
    using on_rgb_382 on_rgb_383 by (simp add: pack1bit_eval)
  have v0: "pack1bit ?ps 2 1 (ascii ''vertical'') = Inr [0, 0x80]"
    using on_rgb_382 on_rgb_383 ceil_div8 [of 1]
    by (simp add: pack1bit_eval pages_def ascii_orientations)
  note t0 = pack1bit_threshold [OF len wf, of 0 0] and t1 = pack1bit_threshold [OF len wf, of 1 0]
  from t0 t1 show ?thesis
    unfolding h0 v0 by (simp add: N)
qed

subsection \<open>Claim C2: buffers of the wrong length\<close>

lemma pack1bit_horizontal_short:
  assumes "length pixels < w * h"
  shows "pack1bit pixels w h (ascii ''horizontal'') = Inl TypeError"
proof (cases "pack1bit pixels w h (ascii ''horizontal'')")
  case (Inl e)
  then show ?thesis using pack1bit_hrows_Inl [of pixels w h 0 "[]" e]
    by (simp add: pack1bit_def)
next
  case (Inr res)
  have pos: "0 < h" "0 < w" using assms by (cases h; cases w; simp)+
  have "pack1bit_hrows pixels w h 0 [] = Inr res" using Inr by (simp add: pack1bit_def)
  then have "h * w \<le> length pixels" using pos by (rule pack1bit_hrows_Inr)
  then show ?thesis using assms by (simp add: mult.commute)
qed

lemma pack1bit_vertical_short:
  assumes "length pixels < w * h"
  shows "pack1bit pixels w h (ascii ''vertical'') = Inl TypeError"
proof (cases "pack1bit pixels w h (ascii ''vertical'')")
  case (Inl e)
  then show ?thesis using pack1bit_vcols_Inl [of pixels w h 0 "[]" e]
    by (simp add: pack1bit_def ascii_orientations)
next
  case (Inr res)
  have pos: "0 < h" "0 < w" using assms by (cases h; cases w; simp)+
  have run: "pack1bit_vcols pixels w h 0 [] = Inr res"
    using Inr by (simp add: pack1bit_def ascii_orientations)
  have "(h - 1) * w + (w - 1) < length pixels"
    using pos by (intro pack1bit_vcols_reads [OF run]) simp_all
  moreover have "(h - 1) * w + (w - 1) + 1 = w * h"
  proof -
    have "(h - 1) * w + w = h * w" using pos by (simp add: algebra_simps)
    then show ?thesis using pos by (simp add: mult.commute)
  qed
  ultimately show ?thesis using assms by simp
qed

lemma pack1bit_take:
  assumes "w * h \<le> length pixels"
  shows "pack1bit (take (w * h) pixels) w h orientation = pack1bit pixels w h orientation"
proof -
  have len: "w * h \<le> length (take (w * h) pixels)" using assms by simp
  have idx: "take (w * h) pixels ! (y * w + x) = pixels ! (y * w + x)" if "y < h" "x < w" for y x
  proof -
    have "y * w + x < h * w" using that by (rule mult_add_less)
    then show ?thesis by (simp add: mult.commute)
  qed
  consider "orientation = ascii ''horizontal''" | "orientation = ascii ''vertical''"
    | "orientation \<noteq> ascii ''horizontal''" "orientation \<noteq> ascii ''vertical''" by blast
  then show ?thesis
  proof cases
    case 1
    have "concat (map (\<lambda>y. map (\<lambda>j. byte_of_bits (\<lambda>i. 8 * j + i < w \<and>
                 on_rgb (take (w * h) pixels ! (y * w + (8 * j + i))))) [0..<(w + 7) div 8]) [0..<h])
        = concat (map (\<lambda>y. map (\<lambda>j. byte_of_bits (\<lambda>i. 8 * j + i < w \<and>
                 on_rgb (pixels ! (y * w + (8 * j + i))))) [0..<(w + 7) div 8]) [0..<h])"
    proof (intro arg_cong [where f = concat] map_cong refl byte_of_bits_cong)
      fix y j k assume "y \<in> set [0..<h]"
      then have "y < h" by simp
      then show "(8 * j + k < w \<and> on_rgb (take (w * h) pixels ! (y * w + (8 * j + k)))) =
                 (8 * j + k < w \<and> on_rgb (pixels ! (y * w + (8 * j + k))))"
        using idx [of y "8 * j + k"] by auto
    qed
    then show ?thesis
      unfolding 1 pack1bit_horizontal [OF len] pack1bit_horizontal [OF assms] by simp
  next
    case 2
    have "concat (map (\<lambda>x. map (\<lambda>pg. byte_of_bits (\<lambda>i. pg * 8 + i < h \<and>
             on_rgb (take (w * h) pixels ! ((pg * 8 + i) * w + x)))) [0..<pages h]) [0..<w])
        = concat (map (\<lambda>x. map (\<lambda>pg. byte_of_bits (\<lambda>i. pg * 8 + i < h \<and>
             on_rgb (pixels ! ((pg * 8 + i) * w + x)))) [0..<pages h]) [0..<w])"
    proof (intro arg_cong [where f = concat] map_cong refl byte_of_bits_cong)
      fix x pg k assume "x \<in> set [0..<w]"
      then have "x < w" by simp
      then show "(pg * 8 + k < h \<and> on_rgb (take (w * h) pixels ! ((pg * 8 + k) * w + x))) =
                 (pg * 8 + k < h \<and> on_rgb (pixels ! ((pg * 8 + k) * w + x)))"
        using idx [of "pg * 8 + k" x] by auto
    qed
    then show ?thesis
      unfolding 2 pack1bit_vertical [OF len] pack1bit_vertical [OF assms] by simp
  next
    case 3
    then show ?thesis by (simp add: pack1bit_def)
  qed
qed

lemma packRGB565_take:
  assumes "w * h \<le> length pixels"
  shows "packRGB565 (take (w * h) pixels) w h = packRGB565 pixels w h"
proof -
  have len: "w * h \<le> length (take (w * h) pixels)" using assms by simp
  show ?thesis
    unfolding packRGB565_ok [OF len] packRGB565_ok [OF assms] by simp
qed

lemma pack1bit_total:
  assumes "w * h \<le> length pixels"
  shows "\<exists>bytes. pack1bit pixels w h orientation = Inr bytes"
proof -
  consider "orientation = ascii ''horizontal''" | "orientation = ascii ''vertical''"
    | "orientation \<noteq> ascii ''horizontal''" "orientation \<noteq> ascii ''vertical''" by blast
  then show ?thesis
  proof cases
    case 1 then show ?thesis unfolding 1 pack1bit_horizontal [OF assms] by blast
  next
    case 2 then show ?thesis unfolding 2 pack1bit_vertical [OF assms] by blast
  next
    case 3 then show ?thesis by (simp add: pack1bit_def)
  qed
qed

text \<open>
  Claim C2, as stated, fails: the packers compare no length. A buffer of two pixels given
  as a 1 by 1 image is packed without any error, its second pixel ignored.
\<close>

theorem packers_accept_long_buffer_counterexample:
  "length [white, white] \<noteq> 1 * 1 \<and>
   pack1bit [white, white] 1 1 (ascii ''horizontal'') = Inr [0x80] \<and>
   pack1bit [white, white] 1 1 (ascii ''vertical'') = Inr [0x80] \<and>
   packRGB565 [white, white] 1 1 = Inr [0xFFFF]"
proof -
  have "packRGB565 [white, white] 1 1 = Inr [0xFFFF]" by code_simp
  then show ?thesis
    using on_rgb_white ceil_div8 [of 1] by (simp add: pack1bit_eval pages_def ascii_orientations)
qed

text \<open>
  Claim C2, amended. The packers do not check the buffer's length before packing. On a
  buffer shorter than \<open>width * height\<close>, \<open>pack1bit\<close> (orientation \<open>'horizontal'\<close> or
  \<open>'vertical'\<close>) and \<open>packRGB565\<close> fail with the TypeError of the first read past the
  end of the buffer and return no output. On a buffer of \<open>width * height\<close> pixels or
  more they raise nothing and return the packing of its first \<open>width * height\<close> pixels,
  ignoring the rest.
\<close>

theorem packers_length_mismatch:
  "(length pixels < w * h \<longrightarrow>
      pack1bit pixels w h (ascii ''horizontal'') = Inl TypeError \<and>
      pack1bit pixels w h (ascii ''vertical'') = Inl TypeError \<and>
      packRGB565 pixels w h = Inl TypeError) \<and>
   (w * h \<le> length pixels \<longrightarrow>
      (\<exists>bytes. pack1bit pixels w h orientation = Inr bytes) \<and>
      pack1bit pixels w h orientation = pack1bit (take (w * h) pixels) w h orientation \<and>
      (\<exists>ws. packRGB565 pixels w h = Inr ws) \<and>
      packRGB565 pixels w h = packRGB565 (take (w * h) pixels) w h)"
proof (intro conjI impI)
  assume short: "length pixels < w * h"
  show "pack1bit pixels w h (ascii ''horizontal'') = Inl TypeError"
    using short by (rule pack1bit_horizontal_short)
  show "pack1bit pixels w h (ascii ''vertical'') = Inl TypeError"
    using short by (rule pack1bit_vertical_short)
  show "packRGB565 pixels w h = Inl TypeError"
    using short by (rule packRGB565_short)
next
  assume long: "w * h \<le> length pixels"
  show "\<exists>bytes. pack1bit pixels w h orientation = Inr bytes"
    using long by (rule pack1bit_total)
  show "pack1bit pixels w h orientation = pack1bit (take (w * h) pixels) w h orientation"
    using pack1bit_take [OF long] by simp
  show "\<exists>ws. packRGB565 pixels w h = Inr ws"
    unfolding packRGB565_ok [OF long] by blast
  show "packRGB565 pixels w h = packRGB565 (take (w * h) pixels) w h"
    using packRGB565_take [OF long] by simp
qed

theorem packers_length_mismatch_witness:
  "pack1bit [white] 2 1 (ascii ''horizontal'') = Inl TypeError \<and>
   pack1bit [white] 2 1 (ascii ''vertical'') = Inl TypeError \<and>
   packRGB565 [white] 2 1 = Inl TypeError \<and>
   pack1bit [white, black, white] 2 1 (ascii ''horizontal'') = pack1bit [white, black] 2 1 (ascii ''horizontal'') \<and>
   packRGB565 [white, black, white] 2 1 = packRGB565 [white, black] 2 1"
proof -
  have s: "length [white] < 2 * 1" and l: "2 * 1 \<le> length [white, black, white]" by simp_all
  from packers_length_mismatch [of "[white]" 2 1 "ascii ''horizontal''"] s
    packers_length_mismatch [of "[white, black, white]" 2 1 "ascii ''horizontal''"] l
  show ?thesis by simp
qed

subsection \<open>Claim C10: \<open>pack1bitAlpha\<close> and unrecognized orientations\<close>

lemma pack1bitAlpha_vpage_ok:
  assumes "k \<le> 8" "bitv = 7 - int k" "x < width" "height * width \<le> length pixels"
    and "cur = byte_of_bits (\<lambda>i. i < k \<and> yPage * 8 + i < height \<and>
                 hasAlpha (pixels ! ((yPage * 8 + i) * width + x)))"
  shows "pack1bitAlpha_vpage pixels width height x yPage bitv cur =
     Inr (byte_of_bits (\<lambda>i. yPage * 8 + i < height \<and> hasAlpha (pixels ! ((yPage * 8 + i) * width + x))))"
  using assms
proof (induction pixels width height x yPage bitv cur arbitrary: k rule: pack1bitAlpha_vpage.induct)
  case (1 pixels width height x yPage bitv cur)
  show ?case
  proof (cases "bitv \<ge> 0")
    case False
    then have k8: "k = 8" using "1.prems" by simp
    have "cur = byte_of_bits (\<lambda>i. yPage * 8 + i < height \<and> hasAlpha (pixels ! ((yPage * 8 + i) * width + x)))"
      unfolding "1.prems"(5) using k8 by (intro byte_of_bits_cong) simp
    then show ?thesis using False by (subst pack1bitAlpha_vpage.simps) simp
  next
    case True
    then have k7: "k < 8" and nk: "nat (7 - bitv) = k" using "1.prems" by simp_all
    have bitv1: "bitv - 1 = 7 - int (Suc k)" using "1.prems"(2) by simp
    show ?thesis
    proof (cases "yPage * 8 + k < height")
      case inh: True
      let ?y = "yPage * 8 + k"
      let ?p = "pixels ! (?y * width + x)"
      have "?y * width + width \<le> length pixels" using inh "1.prems"(4) by (rule mult_le_rows)
      then have "I width x ?y < length pixels" using "1.prems"(3) by (simp add: I_def)
      then have pa: "pixel_at pixels (I width x (yPage * 8 + nat (7 - bitv))) = Inr ?p"
        by (simp add: pixel_at_ok I_def nk)
      define cur1 where "cur1 = (if hasAlpha ?p then js_or cur (js_shl 1 bitv) else cur)"
      have cur1: "cur1 = byte_of_bits (\<lambda>i. i < Suc k \<and> yPage * 8 + i < height \<and>
                 hasAlpha (pixels ! ((yPage * 8 + i) * width + x)))"
      proof (cases "hasAlpha ?p")
        case True
        then have "cur1 = byte_of_bits (\<lambda>i. (i < k \<and> yPage * 8 + i < height \<and>
                 hasAlpha (pixels ! ((yPage * 8 + i) * width + x))) \<or> i = k)"
          using "1.prems" k7 by (simp add: cur1_def byte_of_bits_set)
        also have "\<dots> = byte_of_bits (\<lambda>i. i < Suc k \<and> yPage * 8 + i < height \<and>
                 hasAlpha (pixels ! ((yPage * 8 + i) * width + x)))"
          using True inh by (intro byte_of_bits_cong) (auto simp: less_Suc_eq)
        finally show ?thesis .
      next
        case False
        then have "cur1 = byte_of_bits (\<lambda>i. i < k \<and> yPage * 8 + i < height \<and>
                 hasAlpha (pixels ! ((yPage * 8 + i) * width + x)))"
          using "1.prems" by (simp add: cur1_def)
        also have "\<dots> = byte_of_bits (\<lambda>i. i < Suc k \<and> yPage * 8 + i < height \<and>
                 hasAlpha (pixels ! ((yPage * 8 + i) * width + x)))"
          using False by (intro byte_of_bits_cong) (auto simp: less_Suc_eq)
        finally show ?thesis .
      qed
      have inh': "yPage * 8 + nat (7 - bitv) < height" using inh nk by simp
      have step: "pack1bitAlpha_vpage pixels width height x yPage (bitv - 1) cur1 =
          Inr (byte_of_bits (\<lambda>i. yPage * 8 + i < height \<and> hasAlpha (pixels ! ((yPage * 8 + i) * width + x))))"
        unfolding cur1_def
        using k7 "1.prems"(3,4) cur1 [unfolded cur1_def]
        by (intro "1.IH"(1) [OF True inh' pa, where k = "Suc k"] bitv1) simp_all
      have "pack1bitAlpha_vpage pixels width height x yPage bitv cur =
            pack1bitAlpha_vpage pixels width height x yPage (bitv - 1) cur1"
        using True inh' pa by (subst pack1bitAlpha_vpage.simps) (simp add: cur1_def)
      then show ?thesis using step by simp
    next
      case outh: False
      have cur': "cur = byte_of_bits (\<lambda>i. i < Suc k \<and> yPage * 8 + i < height \<and>
                 hasAlpha (pixels ! ((yPage * 8 + i) * width + x)))"
        unfolding "1.prems"(5) using outh by (intro byte_of_bits_cong) (auto simp: less_Suc_eq)
      have outh': "\<not> yPage * 8 + nat (7 - bitv) < height" using outh nk by simp
      have step: "pack1bitAlpha_vpage pixels width height x yPage (bitv - 1) cur =
          Inr (byte_of_bits (\<lambda>i. yPage * 8 + i < height \<and> hasAlpha (pixels ! ((yPage * 8 + i) * width + x))))"
        using k7 "1.prems"(3,4) cur'
        by (intro "1.IH"(2) [OF True outh', where k = "Suc k"] bitv1) simp_all
      have "pack1bitAlpha_vpage pixels width height x yPage bitv cur =
            pack1bitAlpha_vpage pixels width height x yPage (bitv - 1) cur"
        using True outh' by (subst pack1bitAlpha_vpage.simps) simp
      then show ?thesis using step by simp
    qed
  qed
qed

lemma pack1bitAlpha_vpages_ok:
  "x < width \<Longrightarrow> height * width \<le> length pixels \<Longrightarrow>
   pack1bitAlpha_vpages pixels width height x yPage bytes =
     Inr (bytes @ map (\<lambda>pg. byte_of_bits (\<lambda>i. pg * 8 + i < height \<and>
             hasAlpha (pixels ! ((pg * 8 + i) * width + x)))) [yPage..<pages height])"
proof (induction pixels width height x yPage bytes rule: pack1bitAlpha_vpages.induct)
  case (1 pixels width height x yPage bytes)
  show ?case
  proof (cases "yPage < pages height")
    case True
    have page: "pack1bitAlpha_vpage pixels width height x yPage 7 0 =
       Inr (byte_of_bits (\<lambda>i. yPage * 8 + i < height \<and> hasAlpha (pixels ! ((yPage * 8 + i) * width + x))))"
      using "1.prems" by (intro pack1bitAlpha_vpage_ok [where k = 0]) (simp_all add: byte_of_bits_False)
    have "pack1bitAlpha_vpages pixels width height x yPage bytes =
       pack1bitAlpha_vpages pixels width height x (yPage + 1)
         (bytes @ [byte_of_bits (\<lambda>i. yPage * 8 + i < height \<and> hasAlpha (pixels ! ((yPage * 8 + i) * width + x)))])"
      using True by (subst pack1bitAlpha_vpages.simps) (simp only: page if_True sum.case)
    also have "\<dots> = Inr ((bytes @ [byte_of_bits (\<lambda>i. yPage * 8 + i < height \<and>
                 hasAlpha (pixels ! ((yPage * 8 + i) * width + x)))])
           @ map (\<lambda>pg. byte_of_bits (\<lambda>i. pg * 8 + i < height \<and>
             hasAlpha (pixels ! ((pg * 8 + i) * width + x)))) [yPage + 1..<pages height])"
      using "1.IH" [OF True page] "1.prems" by simp
    finally show ?thesis
      by (simp only: upt_conv_Cons [OF True] list.map append_assoc append.simps Suc_eq_plus1)
  next
    case False
    then show ?thesis by (subst pack1bitAlpha_vpages.simps) simp
  qed
qed

lemma pack1bitAlpha_vcols_ok:
  "x \<le> width \<Longrightarrow> height * width \<le> length pixels \<Longrightarrow>
   pack1bitAlpha_vcols pixels width height x bytes =
     Inr (bytes @ concat (map (\<lambda>x'. map (\<lambda>pg. byte_of_bits (\<lambda>i. pg * 8 + i < height \<and>
             hasAlpha (pixels ! ((pg * 8 + i) * width + x')))) [0..<pages height]) [x..<width]))"
proof (induction pixels width height x bytes rule: pack1bitAlpha_vcols.induct)
  case (1 pixels width height x bytes)
  show ?case
  proof (cases "x < width")
    case True
    note col = pack1bitAlpha_vpages_ok [OF True "1.prems"(2), of 0 bytes]
    have "pack1bitAlpha_vcols pixels width height x bytes =
       pack1bitAlpha_vcols pixels width height (x + 1)
         (bytes @ map (\<lambda>pg. byte_of_bits (\<lambda>i. pg * 8 + i < height \<and>
             hasAlpha (pixels ! ((pg * 8 + i) * width + x)))) [0..<pages height])"
      using True by (subst pack1bitAlpha_vcols.simps) (simp only: col if_True sum.case)
    also have "\<dots> = Inr ((bytes @ map (\<lambda>pg. byte_of_bits (\<lambda>i. pg * 8 + i < height \<and>
             hasAlpha (pixels ! ((pg * 8 + i) * width + x)))) [0..<pages height])
          @ concat (map (\<lambda>x'. map (\<lambda>pg. byte_of_bits (\<lambda>i. pg * 8 + i < height \<and>
             hasAlpha (pixels ! ((pg * 8 + i) * width + x')))) [0..<pages height]) [x + 1..<width]))"
      using "1.IH" [OF True col] True "1.prems" by simp
    finally show ?thesis
      by (simp only: upt_conv_Cons [OF True] list.map concat.simps append_assoc Suc_eq_plus1)
  next
    case False
    then show ?thesis using "1.prems" by (subst pack1bitAlpha_vcols.simps) simp
  qed
qed

lemma pack1bitAlpha_vertical:
  assumes "w * h \<le> length pixels" "orientation \<noteq> ascii ''horizontal''"
  shows "pack1bitAlpha pixels w h orientation =
     Inr (concat (map (\<lambda>x. map (\<lambda>pg. byte_of_bits (\<lambda>i. pg * 8 + i < h \<and>
             hasAlpha (pixels ! ((pg * 8 + i) * w + x)))) [0..<pages h]) [0..<w]))"
proof -
  have le: "h * w \<le> length pixels" using assms by (simp add: mult.commute)
  show ?thesis
    unfolding pack1bitAlpha_def using pack1bitAlpha_vcols_ok [OF le0 le, of "[]"] assms(2)
    by simp
qed

lemma pack1bitAlpha_vpages_length:
  "pack1bitAlpha_vpages pixels width height x yPage bytes = Inr res \<Longrightarrow>
   length res = length bytes + (pages height - yPage)"
proof (induction pixels width height x yPage bytes rule: pack1bitAlpha_vpages.induct)
  case (1 pixels width height x yPage bytes)
  show ?case
  proof (cases "yPage < pages height")
    case True
    from "1.prems" obtain c where page: "pack1bitAlpha_vpage pixels width height x yPage 7 0 = Inr c"
      using True by (subst (asm) pack1bitAlpha_vpages.simps) (auto split: sum.splits)
    have "pack1bitAlpha_vpages pixels width height x (yPage + 1) (bytes @ [c]) = Inr res"
      using "1.prems" True page by (subst (asm) pack1bitAlpha_vpages.simps) simp
    then have "length res = length (bytes @ [c]) + (pages height - (yPage + 1))"
      by (rule "1.IH" [OF True page])
    then show ?thesis using True by simp
  next
    case False
    then show ?thesis using "1.prems" by (subst (asm) pack1bitAlpha_vpages.simps) auto
  qed
qed

lemma pack1bitAlpha_vcols_length:
  "pack1bitAlpha_vcols pixels width height x bytes = Inr res \<Longrightarrow>
   length res = length bytes + (width - x) * pages height"
proof (induction pixels width height x bytes rule: pack1bitAlpha_vcols.induct)
  case (1 pixels width height x bytes)
  show ?case
  proof (cases "x < width")
    case True
    from "1.prems" obtain bs where col: "pack1bitAlpha_vpages pixels width height x 0 bytes = Inr bs"
      using True by (subst (asm) pack1bitAlpha_vcols.simps) (auto split: sum.splits)
    have "pack1bitAlpha_vcols pixels width height (x + 1) bs = Inr res"
      using "1.prems" True col by (subst (asm) pack1bitAlpha_vcols.simps) simp
    then have "length res = length bs + (width - (x + 1)) * pages height"
      by (rule "1.IH" [OF True col])
    moreover have "length bs = length bytes + pages height"
      using pack1bitAlpha_vpages_length [OF col] by simp
    moreover have "(width - x) * pages height = pages height + (width - (x + 1)) * pages height"
    proof -
      have "width - x = Suc (width - (x + 1))" using True by simp
      then show ?thesis by simp
    qed
    ultimately show ?thesis by simp
  next
    case False
    then show ?thesis using "1.prems" by (subst (asm) pack1bitAlpha_vcols.simps) auto
  qed
qed

lemma pages_pos: "0 < h \<Longrightarrow> 0 < pages h"
  using div8_lt_pages [of 0 h] by simp

text \<open>
  Claim C10. For an orientation string other than \<open>'horizontal'\<close> and \<open>'vertical'\<close>,
  \<open>pack1bit\<close> returns the empty byte sequence for every buffer, while
  \<open>pack1bitAlpha\<close> does what it does for \<open>'vertical'\<close>: on a buffer of length
  \<open>w * h\<close> it returns the \<open>w * ceil(h / 8)\<close> bytes of the vertical packing of the
  alpha channel. So the two results differ whenever the image is not empty.
\<close>

theorem pack1bit_unrecognized_orientation:
  assumes "orientation \<noteq> ascii ''horizontal''" "orientation \<noteq> ascii ''vertical''"
  shows "pack1bit pixels w h orientation = Inr [] \<and>
         pack1bitAlpha pixels w h orientation = pack1bitAlpha pixels w h (ascii ''vertical'') \<and>
         (length pixels = w * h \<longrightarrow>
            (\<exists>bytes. pack1bitAlpha pixels w h orientation = Inr bytes \<and> length bytes = w * pages h \<and>
               (\<forall>x<w. \<forall>pg<pages h. \<forall>n.
                  bit (bytes ! (x * pages h + pg)) n \<longleftrightarrow>
                    n < 8 \<and> 8 * pg + (7 - n) < h \<and> hasAlpha (pixels ! I w x (8 * pg + (7 - n)))))) \<and>
         (0 < w \<and> 0 < h \<longrightarrow> pack1bitAlpha pixels w h orientation \<noteq> pack1bit pixels w h orientation)"
proof (intro conjI impI)
  show empty: "pack1bit pixels w h orientation = Inr []"
    using assms by (simp add: pack1bit_def)
  show "pack1bitAlpha pixels w h orientation = pack1bitAlpha pixels w h (ascii ''vertical'')"
    using assms(1) by (simp add: pack1bitAlpha_def ascii_orientations)
  show "\<exists>bytes. pack1bitAlpha pixels w h orientation = Inr bytes \<and> length bytes = w * pages h \<and>
               (\<forall>x<w. \<forall>pg<pages h. \<forall>n.
                  bit (bytes ! (x * pages h + pg)) n \<longleftrightarrow>
                    n < 8 \<and> 8 * pg + (7 - n) < h \<and> hasAlpha (pixels ! I w x (8 * pg + (7 - n))))"
    if len: "length pixels = w * h"
  proof -
    define F where "F = (\<lambda>x pg. byte_of_bits (\<lambda>i. pg * 8 + i < h \<and> hasAlpha (pixels ! ((pg * 8 + i) * w + x))))"
    define bytes where "bytes = concat (map (\<lambda>x. map (F x) [0..<pages h]) [0..<w])"
    have eq: "pack1bitAlpha pixels w h orientation = Inr bytes"
      using pack1bitAlpha_vertical [of w h pixels orientation] len assms(1) by (simp add: bytes_def F_def)
    have l: "length bytes = w * pages h"
      by (simp add: bytes_def concat_rows_length)
    have bits: "bit (bytes ! (x * pages h + pg)) n \<longleftrightarrow>
                n < 8 \<and> 8 * pg + (7 - n) < h \<and> hasAlpha (pixels ! I w x (8 * pg + (7 - n)))"
      if "x < w" "pg < pages h" for x pg n
      using that by (simp add: bytes_def concat_rows_nth F_def bit_byte_of_bits I_def mult.commute)
    show ?thesis using eq l bits by blast
  qed
  show "pack1bitAlpha pixels w h orientation \<noteq> pack1bit pixels w h orientation"
    if pos: "0 < w \<and> 0 < h"
  proof
    assume "pack1bitAlpha pixels w h orientation = pack1bit pixels w h orientation"
    then have "pack1bitAlpha_vcols pixels w h 0 [] = Inr []"
      using empty assms(1) by (simp add: pack1bitAlpha_def)
    from pack1bitAlpha_vcols_length [OF this] have "w * pages h = 0" by simp
    then show False using pos pages_pos [of h] by simp
  qed
qed

theorem pack1bit_unrecognized_orientation_witness:
  "pack1bit [white] 1 1 (ascii ''diagonal'') = Inr [] \<and>
   pack1bitAlpha [white] 1 1 (ascii ''diagonal'') = pack1bitAlpha [white] 1 1 (ascii ''vertical'') \<and>
   pack1bitAlpha [white] 1 1 (ascii ''diagonal'') = Inr [0x80] \<and>
   pack1bitAlpha [white] 1 1 (ascii ''diagonal'') \<noteq> pack1bit [white] 1 1 (ascii ''diagonal'')"
proof -
  have o: "ascii ''diagonal'' \<noteq> ascii ''horizontal''" "ascii ''diagonal'' \<noteq> ascii ''vertical''"
    by (simp_all add: ascii_def)
  have v: "pack1bitAlpha [white] 1 1 (ascii ''diagonal'') = Inr [0x80]" by code_simp
  from pack1bit_unrecognized_orientation [OF o, of "[white]" 1 1] v show ?thesis by simp
qed

subsection \<open>Claim C9: identifier sanitization\<close>



lemma ident_unit_underscore: "ident_unit 95"
  by (simp add: ident_unit_def)

lemma safeName_of_ident: "list_all ident_unit (safeName_of name)"
  by (induction name) (simp_all add: safeName_of_def ident_unit_underscore)


lemma output_formats_distinct:
  "ascii ''PLAIN_BYTES'' \<noteq> ascii ''ARDUINO_CODE''"
  "ascii ''PLAIN_BYTES'' \<noteq> ascii ''ARDUINO_SINGLE_BITMAP''"
  "ascii ''PLAIN_BYTES'' \<noteq> ascii ''GFX_BITMAP_FONT''"
  "ascii ''ARDUINO_CODE'' \<noteq> ascii ''ARDUINO_SINGLE_BITMAP''"
  "ascii ''ARDUINO_CODE'' \<noteq> ascii ''GFX_BITMAP_FONT''"
  "ascii ''ARDUINO_SINGLE_BITMAP'' \<noteq> ascii ''GFX_BITMAP_FONT''"
  by (simp_all add: ascii_def)

lemma safeName_example: "safeName_of (ascii ''my sprite-1'') = ascii ''my_sprite_1''"
  by (simp add: safeName_of_def ascii_def ident_unit_def)

lemma single_bitmap_example:
  "generateCppCode (ascii ''my sprite-1'') (ascii ''HORIZONTAL_1BIT'') (ascii ''ARDUINO_SINGLE_BITMAP'')
      (replicate 10 white) 10 1 =
   Inr (join nl [ascii ''// Single bitmap array - my_sprite_1'',
                 ascii ''// 10x1 pixels, 2 bytes'',
                 ascii ''const uint8_t my_sprite_1[] PROGMEM = { 0xFF, 0xC0 };''])"
proof -
  have fb: "formatByte (Some (ascii ''uint8_t'')) 255 = ascii ''0xFF''"
    "formatByte (Some (ascii ''uint8_t'')) 192 = ascii ''0xC0''"
    by (simp_all add: formatByte_def ascii_def toString16_def digits.simps digit_char_def
        toUpperCase_def padStart_def)
  have n: "num 10 = ascii ''10''" "num (Suc 0) = ascii ''1''" "num (Suc (Suc 0)) = ascii ''2''"
    by (simp_all add: num_def digits.simps digit_char_def)
  have p: "packed_by_drawMode (ascii ''HORIZONTAL_1BIT'') (replicate 10 white) 10 1 =
      Inr (Some [0xFF, 0xC0], Some (ascii ''uint8_t''), Some (ascii ''bits''))"
    using pack1bit_10x1 by (simp add: packed_by_drawMode_def)
  have g: "generateCppCode (ascii ''my sprite-1'') (ascii ''HORIZONTAL_1BIT'') (ascii ''ARDUINO_SINGLE_BITMAP'')
      (replicate 10 white) 10 1 =
      generateArduinoSingleBitmap (Some [0xFF, 0xC0]) (ascii ''my_sprite_1'') 10 1
        (Some (ascii ''uint8_t'')) (Some (ascii ''bits''))"
    unfolding generateCppCode_def Let_def p safeName_example
    by (simp add: output_formats_distinct output_formats_distinct [symmetric])
  have e: "generateArduinoSingleBitmap (Some [0xFF, 0xC0]) (ascii ''my_sprite_1'') 10 1
        (Some (ascii ''uint8_t'')) (Some (ascii ''bits'')) =
      Inr (join nl [ascii ''// Single bitmap array - my_sprite_1'',
                 ascii ''// 10x1 pixels, 2 bytes'',
                 ascii ''const uint8_t my_sprite_1[] PROGMEM = { 0xFF, 0xC0 };''])"
    by (simp add: generateArduinoSingleBitmap_def fb n str_def) (simp add: ascii_def nl_def)
  show ?thesis unfolding g e ..
qed














subsection \<open>Claim C8: selector pairs that the dispatch does not recognize\<close>















subsection \<open>Claim C4: \<open>packGray4\<close>\<close>








text \<open>The loops of \<open>packGray4\<close>: two nibbles per byte, a trailing nibble flushed alone.\<close>

lemma gray4_range: "0 \<le> gray4 p \<and> gray4 p \<le> 15"
  by (simp add: gray4_def)

lemma gray4_high: "js_shl (gray4 p) 4 = 16 * gray4 p"
  using js_shl_small [of "gray4 p" 4] gray4_range [of p] by simp

lemma nibbles_or:
  assumes "0 \<le> hi" "hi \<le> 15" "0 \<le> lo" "lo \<le> 15"
  shows "js_or (16 * hi) lo = 16 * hi + lo"
proof -
  have "js_or (16 * hi) lo = 16 * hi OR lo" using assms by (intro js_or_small) simp_all
  also have "16 * hi OR lo = push_bit 4 hi OR take_bit 4 lo"
    using assms by (simp add: push_bit_eq_mult take_bit_int_eq_self mult.commute)
  also have "\<dots> = push_bit 4 hi + take_bit 4 lo"
    by (rule disjunctive_add_eq_or [symmetric])
      (simp add: bit_eq_iff bit_and_iff bit_push_bit_iff bit_take_bit_iff)
  also have "\<dots> = 16 * hi + lo"
    using assms by (simp add: push_bit_eq_mult take_bit_int_eq_self mult.commute)
  finally show ?thesis .
qed

lemma packGray4_row_ok:
  assumes "x = 2 * j + k" "k < 2" "x \<le> width" "y * width + width \<le> length pixels"
    and "nibble = (if k = 0 then 1 else 0)"
    and "cur = (if k = 0 then 0 else 16 * gray4 (pixels ! (y * width + 2 * j)))"
  shows "packGray4_row pixels width y x nibble cur bytes =
     Inr (if even width then 1 else 0,
          if even width then 0 else 16 * gray4 (pixels ! (y * width + 2 * (width div 2))),
          bytes @ map (\<lambda>j'. 16 * gray4 (pixels ! (y * width + 2 * j'))
                               + gray4 (pixels ! (y * width + (2 * j' + 1)))) [j..<width div 2])"
  using assms
proof (induction pixels width y x nibble cur bytes arbitrary: j k rule: packGray4_row.induct)
  case (1 pixels width y x nibble cur bytes)
  show ?case
  proof (cases "x < width")
    case False
    then have xw: "width = 2 * j + k" using "1.prems" by simp
    then have "width div 2 = j" "even width \<longleftrightarrow> k = 0" using "1.prems"(2) by auto
    then show ?thesis using False "1.prems" by (subst packGray4_row.simps) simp
  next
    case True
    let ?p = "pixels ! (y * width + x)"
    have "I width x y < length pixels" using True "1.prems" by (simp add: I_def)
    then have pa: "pixel_at pixels (I width x y) = Inr ?p"
      by (simp add: pixel_at_ok I_def)
    show ?thesis
    proof (cases "k = 0")
      case k0: True
      then have n1: "nibble = 1" using "1.prems" by simp
      have step: "packGray4_row pixels width y (x + 1) 0 (js_shl (gray4 ?p) 4) bytes =
        Inr (if even width then 1 else 0,
          if even width then 0 else 16 * gray4 (pixels ! (y * width + 2 * (width div 2))),
          bytes @ map (\<lambda>j'. 16 * gray4 (pixels ! (y * width + 2 * j'))
                               + gray4 (pixels ! (y * width + (2 * j' + 1)))) [j..<width div 2])"
        using True "1.prems" k0
        by (intro "1.IH"(1) [OF True pa n1, where j = j and k = 1]) (simp_all add: gray4_high)
      have "packGray4_row pixels width y x nibble cur bytes =
            packGray4_row pixels width y (x + 1) 0 (js_shl (gray4 ?p) 4) bytes"
        using True pa n1 by (subst packGray4_row.simps) simp
      then show ?thesis using step by simp
    next
      case k1: False
      then have k: "k = 1" and n0: "nibble \<noteq> 1" using "1.prems" by simp_all
      have jlt: "j < width div 2" using True "1.prems"(1) k by simp
      have curv: "cur = 16 * gray4 (pixels ! (y * width + 2 * j))" using "1.prems" k by simp
      have byte: "js_or cur (gray4 ?p) = 16 * gray4 (pixels ! (y * width + 2 * j))
                    + gray4 (pixels ! (y * width + (2 * j + 1)))"
        unfolding curv using gray4_range "1.prems"(1) k by (simp add: nibbles_or)
      have step: "packGray4_row pixels width y (x + 1) 1 0 (bytes @ [js_or cur (gray4 ?p)]) =
        Inr (if even width then 1 else 0,
          if even width then 0 else 16 * gray4 (pixels ! (y * width + 2 * (width div 2))),
          (bytes @ [js_or cur (gray4 ?p)]) @ map (\<lambda>j'. 16 * gray4 (pixels ! (y * width + 2 * j'))
                               + gray4 (pixels ! (y * width + (2 * j' + 1)))) [Suc j..<width div 2])"
        using True "1.prems" k
        by (intro "1.IH"(2) [OF True pa n0, where j = "Suc j" and k = 0]) simp_all
      have "packGray4_row pixels width y x nibble cur bytes =
            packGray4_row pixels width y (x + 1) 1 0 (bytes @ [js_or cur (gray4 ?p)])"
        using True pa n0 by (subst packGray4_row.simps) simp
      then show ?thesis using step jlt byte by (simp add: upt_conv_Cons)
    qed
  qed
qed

lemma gray4_row_flush:
  "(if (if even width then (1::int) else 0) = 0
    then (bytes @ map (\<lambda>j'. 16 * gray4 (pixels ! (y * width + 2 * j'))
                               + gray4 (pixels ! (y * width + (2 * j' + 1)))) [0..<width div 2])
           @ [if even width then 0 else 16 * gray4 (pixels ! (y * width + 2 * (width div 2)))]
    else bytes @ map (\<lambda>j'. 16 * gray4 (pixels ! (y * width + 2 * j'))
                               + gray4 (pixels ! (y * width + (2 * j' + 1)))) [0..<width div 2])
   = bytes @ map (\<lambda>j. 16 * gray4 (pixels ! (y * width + 2 * j))
                     + (if 2 * j + 1 < width then gray4 (pixels ! (y * width + (2 * j + 1))) else 0))
               [0..<(width + 1) div 2]"
proof -
  have pairs: "map (\<lambda>j'. 16 * gray4 (pixels ! (y * width + 2 * j'))
                               + gray4 (pixels ! (y * width + (2 * j' + 1)))) [0..<width div 2]
      = map (\<lambda>j. 16 * gray4 (pixels ! (y * width + 2 * j))
                     + (if 2 * j + 1 < width then gray4 (pixels ! (y * width + (2 * j + 1))) else 0))
          [0..<width div 2]"
  proof (rule map_cong [OF refl])
    fix j assume "j \<in> set [0..<width div 2]"
    then have "Suc j \<le> width div 2" by simp
    then have "2 * Suc j \<le> 2 * (width div 2)" by simp
    also have "\<dots> \<le> width" by simp
    finally have "2 * j + 1 < width" by simp
    then show "16 * gray4 (pixels ! (y * width + 2 * j)) + gray4 (pixels ! (y * width + (2 * j + 1)))
       = 16 * gray4 (pixels ! (y * width + 2 * j))
           + (if 2 * j + 1 < width then gray4 (pixels ! (y * width + (2 * j + 1))) else 0)"
      by simp
  qed
  show ?thesis
  proof (cases "even width")
    case True
    then have "(width + 1) div 2 = width div 2" by (elim evenE) simp
    then show ?thesis unfolding pairs using True by simp
  next
    case False
    then have n: "(width + 1) div 2 = Suc (width div 2)" "\<not> 2 * (width div 2) + 1 < width"
      by (elim oddE; simp)+
    show ?thesis unfolding pairs using False n by simp
  qed
qed

lemma packGray4_rows_ok:
  "y \<le> height \<Longrightarrow> height * width \<le> length pixels \<Longrightarrow>
   packGray4_rows pixels width height y bytes =
     Inr (bytes @ concat (map (\<lambda>y'. map (\<lambda>j. 16 * gray4 (pixels ! (y' * width + 2 * j))
                     + (if 2 * j + 1 < width then gray4 (pixels ! (y' * width + (2 * j + 1))) else 0))
               [0..<(width + 1) div 2]) [y..<height]))"
proof (induction pixels width height y bytes rule: packGray4_rows.induct)
  case (1 pixels width height y bytes)
  show ?case
  proof (cases "y < height")
    case True
    have le: "y * width + width \<le> length pixels"
      using True "1.prems"(2) by (rule mult_le_rows)
    have row: "packGray4_row pixels width y 0 1 0 bytes =
      Inr (if even width then 1 else 0,
          if even width then 0 else 16 * gray4 (pixels ! (y * width + 2 * (width div 2))),
          bytes @ map (\<lambda>j'. 16 * gray4 (pixels ! (y * width + 2 * j'))
                               + gray4 (pixels ! (y * width + (2 * j' + 1)))) [0..<width div 2])"
      using le by (intro packGray4_row_ok [where j = 0 and k = 0]) simp_all
    have "packGray4_rows pixels width height y bytes =
        packGray4_rows pixels width height (y + 1)
          (bytes @ map (\<lambda>j. 16 * gray4 (pixels ! (y * width + 2 * j))
                     + (if 2 * j + 1 < width then gray4 (pixels ! (y * width + (2 * j + 1))) else 0))
               [0..<(width + 1) div 2])"
      using True by (subst packGray4_rows.simps) (simp only: row gray4_row_flush if_True sum.case prod.case)
    also have "\<dots> = Inr ((bytes @ map (\<lambda>j. 16 * gray4 (pixels ! (y * width + 2 * j))
                     + (if 2 * j + 1 < width then gray4 (pixels ! (y * width + (2 * j + 1))) else 0))
               [0..<(width + 1) div 2])
         @ concat (map (\<lambda>y'. map (\<lambda>j. 16 * gray4 (pixels ! (y' * width + 2 * j))
                     + (if 2 * j + 1 < width then gray4 (pixels ! (y' * width + (2 * j + 1))) else 0))
               [0..<(width + 1) div 2]) [y + 1..<height]))"
      using True "1.IH" [OF True row refl refl] "1.prems" by (simp only: gray4_row_flush)
    finally show ?thesis
      by (simp only: upt_conv_Cons [OF True] list.map concat.simps append_assoc Suc_eq_plus1)
  next
    case False
    then show ?thesis using "1.prems" by (subst packGray4_rows.simps) simp
  qed
qed

lemma packGray4_ok:
  assumes "w * h \<le> length pixels"
  shows "packGray4 pixels w h =
     Inr (concat (map (\<lambda>y. map (\<lambda>j. 16 * gray4 (pixels ! (y * w + 2 * j))
                     + (if 2 * j + 1 < w then gray4 (pixels ! (y * w + (2 * j + 1))) else 0))
               [0..<(w + 1) div 2]) [0..<h]))"
proof -
  have le: "h * w \<le> length pixels" using assms by (simp add: mult.commute)
  show ?thesis
    unfolding packGray4_def using packGray4_rows_ok [OF le0 le, of "[]"] by simp
qed




lemma gray4_exact_floor_eq:
  "gray4_exact_floor p = min 15 (max 0 ((2126 * r p + 7152 * g p + 722 * b p) div 160000))"
proof -
  have "(2126 / 10000 * rat_of_int (r p) + 7152 / 10000 * rat_of_int (g p)
                        + 722 / 10000 * rat_of_int (b p)) / 16
        = rat_of_int (2126 * r p + 7152 * g p + 722 * b p) / rat_of_int 160000"
    by (simp add: field_simps)
  then show ?thesis
    unfolding gray4_exact_floor_def luma_exact_def by (simp only: floor_divide_of_int_eq)
qed






text \<open>
  The other case occurs. For the gray pixel (80, 80, 80) the exact quotient is 5; in
  doubles the three products and two sums give 79.99999999999999 and the quotient
  4.999999999999999, so the nibble is 4. Each operation is evaluated from its scaled
  significand; two of them are ties, rounded to the even significand.
\<close>

lemma ilog2_upper:
  assumes "0 < x"
  shows "x < 2 powi (ilog2 x + 1)"
proof -
  obtain p q where pq: "quotient_of x = (p, q)" by (cases "quotient_of x")
  have q: "0 < q" using pq by (rule quotient_of_denom_pos)
  have x: "x = of_int p / of_int q" using pq by (rule quotient_of_div)
  have p: "0 < p"
  proof (rule ccontr)
    assume "\<not> 0 < p"
    then have "of_int p \<le> (0::rat)" by simp
    then have "x \<le> 0" unfolding x using q by (simp add: divide_nonpos_pos)
    then show False using assms by simp
  qed
  define lp where "lp = floorlog 2 (nat p)"
  define lq where "lq = floorlog 2 (nat q)"
  have bp: "nat p < 2 ^ lp" using floorlog_bounds [of "nat p" 2] p by (simp add: lp_def)
  have bq: "2 ^ (lq - 1) \<le> nat q" using floorlog_bounds [of "nat q" 2] q by (simp add: lq_def)
  have lq1: "1 \<le> lq"
  proof -
    have "floorlog 2 (nat q) \<noteq> 0" using q floorlog_eq_zero_iff [of 2 "nat q"] by simp
    then show ?thesis by (simp add: lq_def)
  qed
  have eq: "ilog2 x = (if 2 powi (int lp - int lq) \<le> x then int lp - int lq else int lp - int lq - 1)"
    by (simp add: ilog2_def pq lp_def lq_def Let_def)
  show ?thesis
  proof (cases "2 powi (int lp - int lq) \<le> x")
    case False
    then show ?thesis by (simp add: eq)
  next
    case True
    have "of_int p < (2::rat) ^ lp"
    proof -
      have "p < int (2 ^ lp)" using bp p by linarith
      then have "rat_of_int p < rat_of_int (int (2 ^ lp))" by (simp only: of_int_less_iff)
      then show ?thesis by simp
    qed
    moreover have "(2::rat) ^ (lq - 1) \<le> of_int q"
    proof -
      have "int (2 ^ (lq - 1)) \<le> q" using bq q by linarith
      then have "rat_of_int (int (2 ^ (lq - 1))) \<le> rat_of_int q" by (simp only: of_int_le_iff)
      then show ?thesis by simp
    qed
    ultimately have "of_int p / of_int q < (2::rat) ^ lp / 2 ^ (lq - 1)"
      using q p by (intro frac_less) simp_all
    moreover have "(2::rat) powi (int lp - int lq + 1) = 2 ^ lp / 2 ^ (lq - 1)"
    proof -
      have "int lp - int lq + 1 = int lp - int (lq - 1)" using lq1 by simp
      moreover have "(2::rat) powi (int lp - int (lq - 1)) = 2 powi int lp / 2 powi int (lq - 1)"
        by (rule power_int_diff) simp
      ultimately show ?thesis by (simp only: power_int_of_nat)
    qed
    ultimately have "x < (2::rat) powi (int lp - int lq + 1)" by (simp only: x)
    moreover have "ilog2 x = int lp - int lq" using True by (simp add: eq)
    ultimately show ?thesis by simp
  qed
qed

lemma ilog2_unique:
  assumes "0 < x" "2 powi e \<le> x" "x < 2 powi (e + 1)"
  shows "ilog2 x = e"
proof -
  have "(2::rat) powi (ilog2 x) < 2 powi (e + 1)"
    using ilog2_lower [OF assms(1)] assms(3) by simp
  then have a: "ilog2 x < e + 1"
    using power_int_increasing [of "e + 1" "ilog2 x" "2::rat"] by (cases "ilog2 x < e + 1") simp_all
  have "(2::rat) powi e < 2 powi (ilog2 x + 1)"
    using ilog2_upper [OF assms(1)] assms(2) by simp
  then have b: "e < ilog2 x + 1"
    using power_int_increasing [of "ilog2 x + 1" e "2::rat"] by (cases "e < ilog2 x + 1") simp_all
  from a b show ?thesis by simp
qed

lemma round_half_even_near:
  assumes "of_int z - 1 / 2 < m" "m < of_int z + 1 / 2"
  shows "round_half_even m = z"
proof -
  have "\<bar>rat_of_int (round_half_even m) - m\<bar> \<le> 1 / 2" by (rule round_half_even_error)
  then have "\<bar>rat_of_int (round_half_even m) - rat_of_int z\<bar> < 1" using assms by linarith
  then have "\<bar>rat_of_int (round_half_even m - z)\<bar> < rat_of_int 1" by simp
  then have "\<bar>round_half_even m - z\<bar> < 1" by (simp only: of_int_abs [symmetric] of_int_less_iff)
  then show ?thesis by simp
qed

lemma round_half_even_tie:
  assumes "m = of_int z - 1 / 2" "even z"
  shows "round_half_even m = z"
proof -
  have f: "\<lfloor>m\<rfloor> = z - 1" unfolding assms(1) by (rule floor_unique) simp_all
  have d: "m - of_int \<lfloor>m\<rfloor> = 1 / 2" unfolding f by (simp add: assms(1))
  show ?thesis
    unfolding round_half_even_def Let_def d using assms(2) by (simp add: f)
qed

lemma round_half_even_tie_down:
  assumes "m = of_int z + 1 / 2" "even z"
  shows "round_half_even m = z"
proof -
  have f: "\<lfloor>m\<rfloor> = z" unfolding assms(1) by (rule floor_unique) simp_all
  have d: "m - of_int \<lfloor>m\<rfloor> = 1 / 2" unfolding f by (simp add: assms(1))
  show ?thesis
    unfolding round_half_even_def Let_def d using assms(2) by (simp add: f)
qed

lemma fl_scaled:
  assumes "0 < x" "2 ^ 52 \<le> x * 2 ^ k" "x * 2 ^ k < 2 ^ 53"
    and "round_half_even (x * 2 ^ k) = z"
    and "y = of_int z / 2 ^ k"
  shows "fl x = y"
proof -
  define e where "e = 52 - int k"
  have pk: "(2::rat) powi (- int k) = 1 / 2 ^ k" by (simp add: power_int_minus field_simps)
  have e52: "(2::rat) powi e = 2 ^ 52 / 2 ^ k"
    unfolding e_def by (simp add: power_int_diff)
  have e53: "(2::rat) powi (e + 1) = 2 ^ 53 / 2 ^ k"
  proof -
    have "e + 1 = 53 - int k" by (simp add: e_def)
    then show ?thesis by (simp add: power_int_diff)
  qed
  have lo: "2 powi e \<le> x" unfolding e52 using assms(2) by (simp add: field_simps)
  have hi: "x < 2 powi (e + 1)" unfolding e53 using assms(3) by (simp add: field_simps)
  have il: "ilog2 \<bar>x\<bar> = e" using assms(1) lo hi by (simp add: ilog2_unique)
  have u: "(2::rat) powi (ilog2 \<bar>x\<bar> - 52) = 1 / 2 ^ k" unfolding il e_def using pk by simp
  have "fl x = of_int (round_half_even (x / (1 / 2 ^ k))) * (1 / 2 ^ k)"
    using assms(1) unfolding fl_def Let_def u by simp
  moreover have "round_half_even (x / (1 / 2 ^ k)) = z"
    using assms(4) by simp
  ultimately show ?thesis using assms(5) by simp
qed

lemma fl_eval:
  assumes "0 < x" "2 ^ 52 \<le> x * 2 ^ k" "x * 2 ^ k < 2 ^ 53"
    and "of_int z - 1 / 2 < x * 2 ^ k" "x * 2 ^ k < of_int z + 1 / 2"
    and "y = of_int z / 2 ^ k"
  shows "fl x = y"
  using assms(1-3) round_half_even_near [OF assms(4,5)] assms(6) by (rule fl_scaled)

lemma fl_eval_tie:
  assumes "0 < x" "2 ^ 52 \<le> x * 2 ^ k" "x * 2 ^ k < 2 ^ 53"
    and "x * 2 ^ k = of_int z - 1 / 2" "even z"
    and "y = of_int z / 2 ^ k"
  shows "fl x = y"
  using assms(1-3) round_half_even_tie [OF assms(4,5)] assms(6) by (rule fl_scaled)

lemma fl_eval_tie_down:
  assumes "0 < x" "2 ^ 52 \<le> x * 2 ^ k" "x * 2 ^ k < 2 ^ 53"
    and "x * 2 ^ k = of_int z + 1 / 2" "even z"
    and "y = of_int z / 2 ^ k"
  shows "fl x = y"
  using assms(1-3) round_half_even_tie_down [OF assms(4,5)] assms(6) by (rule fl_scaled)

lemma gray4_80: "gray4 \<lparr>r = 80, g = 80, b = 80, a = 255\<rparr> = 4"
proof -
  have c1: "lit (2126 / 10000) = 7659722246231740 / 2 ^ 55"
    unfolding lit_def by (rule fl_eval [where z = 7659722246231740 and k = 55]) simp_all
  have c2: "lit (7152 / 10000) = 6441948906990757 / 2 ^ 53"
    unfolding lit_def by (rule fl_eval [where z = 6441948906990757 and k = 53]) simp_all
  have c3: "lit (722 / 10000) = 5202558289538397 / 2 ^ 56"
    unfolding lit_def by (rule fl_eval [where z = 5202558289538397 and k = 56]) simp_all
  have p1: "fmul (7659722246231740 / 2 ^ 55) 80 = 4787326403894838 / 2 ^ 48"
    unfolding fmul_def by (rule fl_eval_tie [where z = 4787326403894838 and k = 48]) simp_all
  have p2: "fmul (6441948906990757 / 2 ^ 53) 80 = 8052436133738446 / 2 ^ 47"
    unfolding fmul_def by (rule fl_eval [where z = 8052436133738446 and k = 47]) simp_all
  have p3: "fmul (5202558289538397 / 2 ^ 56) 80 = 6503197861922996 / 2 ^ 50"
    unfolding fmul_def by (rule fl_eval [where z = 6503197861922996 and k = 50]) simp_all
  have s1: "fadd (4787326403894838 / 2 ^ 48) (8052436133738446 / 2 ^ 47) = 5223049667842932 / 2 ^ 46"
    unfolding fadd_def by (rule fl_eval_tie_down [where z = 5223049667842932 and k = 46]) simp_all
  have s2: "fadd (5223049667842932 / 2 ^ 46) (6503197861922996 / 2 ^ 50) = 5629499534213119 / 2 ^ 46"
    unfolding fadd_def by (rule fl_eval [where z = 5629499534213119 and k = 46]) simp_all
  have q: "fdiv (5629499534213119 / 2 ^ 46) 16 = 5629499534213119 / 2 ^ 50"
    unfolding fdiv_def by (rule fl_eval [where z = 5629499534213119 and k = 50]) simp_all
  have "luma \<lparr>r = 80, g = 80, b = 80, a = 255\<rparr> = \<lfloor>5629499534213119 / 2 ^ 50 :: rat\<rfloor>"
    unfolding luma_def by (simp only: pixel.select_convs of_int_numeral c1 c2 c3 p1 p2 p3 s1 s2 q)
  also have "\<dots> = 4" by (rule floor_unique) simp_all
  finally show ?thesis by (simp add: gray4_def)
qed

lemma gray4_80_exact:
  "luma_exact \<lparr>r = 80, g = 80, b = 80, a = 255\<rparr> = 5"
  "gray4_exact_floor \<lparr>r = 80, g = 80, b = 80, a = 255\<rparr> = 5"
  by (simp_all add: gray4_exact_floor_eq luma_exact_def)

lemma packGray4_whole_quotient_example:
  "luma_exact \<lparr>r = 80, g = 80, b = 80, a = 255\<rparr> = 5 \<and>
   gray4_exact_floor \<lparr>r = 80, g = 80, b = 80, a = 255\<rparr> = 5 \<and>
   packGray4 [\<lparr>r = 80, g = 80, b = 80, a = 255\<rparr>] 1 1 = Inr [0x40]"
  using packGray4_ok [of 1 1 "[\<lparr>r = 80, g = 80, b = 80, a = 255\<rparr>]"] gray4_80 gray4_80_exact
  by simp




end
